theory Spec2Isabelle
  imports Main
begin

section \<open>Strings and the platform's string operations\<close>

text \<open>
  A JavaScript string is a sequence of code units. The model is \<open>string\<close>, each
  \<open>char\<close> read as one code unit in the range 0..255. The operations below are the
  platform functions the sources call: \<open>String.prototype.split("\n")\<close>,
  \<open>Array.prototype.join("\n")\<close> and \<open>String.prototype.trim\<close>.
\<close>

definition NL :: char where
  "NL = CHR 0x0A"

definition CR :: char where
  "CR = CHR 0x0D"

text \<open>\<open>s.split("\n")\<close>: the pieces between newlines; never empty (\<open>"".split("\n")\<close> is \<open>[""]\<close>).\<close>

fun split_nl :: "string \<Rightarrow> string list" where
  "split_nl [] = [[]]"
| "split_nl (c # cs) =
     (if c = NL then [] # split_nl cs
      else (case split_nl cs of [] \<Rightarrow> [[c]] | l # ls \<Rightarrow> (c # l) # ls))"

text \<open>\<open>xs.join("\n")\<close>.\<close>

fun join_nl :: "string list \<Rightarrow> string" where
  "join_nl [] = []"
| "join_nl [x] = x"
| "join_nl (x # y # ys) = x @ NL # join_nl (y # ys)"

text \<open>
  The characters matched by \<open>\s\<close> in a regular expression and removed by \<open>trim\<close>
  (white space and line terminators), among the code units below 256:
  TAB, LF, VT, FF, CR, SPACE and NO-BREAK SPACE.
\<close>

definition is_space :: "char \<Rightarrow> bool" where
  "is_space c = (c = CHR 0x09 \<or> c = CHR 0x0A \<or> c = CHR 0x0B \<or> c = CHR 0x0C
     \<or> c = CHR 0x0D \<or> c = CHR 0x20 \<or> c = CHR 0xA0)"

definition trim :: "string \<Rightarrow> string" where
  "trim s = rev (dropWhile is_space (rev (dropWhile is_space s)))"

section \<open>Regular expressions of the sources\<close>

text \<open>
  Every regular expression in the sources is anchored at both ends and is a sequence of
  character classes, each taken once, one or more times (\<open>+\<close>) or any number of times
  (\<open>*\<close>). \<open>matches\<close> is the backtracking matcher for such sequences; \<open>\d{2}\<close> is written
  as two items. Under the flag \<open>i\<close> the class \<open>[A-F0-9]\<close> also holds the lower-case letters.
\<close>

datatype char_class = Lit char | Space | Hex | Digit

datatype rx_item = One char_class | Plus char_class | Star char_class

definition is_digit :: "char \<Rightarrow> bool" where
  "is_digit c = (c \<in> set ''0123456789'')"

definition is_hex :: "char \<Rightarrow> bool" where
  "is_hex c = (c \<in> set ''0123456789ABCDEFabcdef'')"

fun in_class :: "char_class \<Rightarrow> char \<Rightarrow> bool" where
  "in_class (Lit x) c = (c = x)"
| "in_class Space c = is_space c"
| "in_class Hex c = is_hex c"
| "in_class Digit c = is_digit c"

fun matches :: "rx_item list \<Rightarrow> string \<Rightarrow> bool" where
  "matches [] s = (s = [])"
| "matches (One k # r) [] = False"
| "matches (One k # r) (c # cs) = (in_class k c \<and> matches r cs)"
| "matches (Plus k # r) [] = False"
| "matches (Plus k # r) (c # cs) = (in_class k c \<and> matches (Star k # r) cs)"
| "matches (Star k # r) [] = matches r []"
| "matches (Star k # r) (c # cs) = ((in_class k c \<and> matches (Star k # r) cs) \<or> matches r (c # cs))"

definition lits :: "string \<Rightarrow> rx_item list" where
  "lits s = map (\<lambda>c. One (Lit c)) s"

text \<open>\<open>\d{2}:\d{2}:\d{2}\s+\d{4}\/\d{2}\/\d{2}\<close>\<close>

definition timestamp_rx :: "rx_item list" where
  "timestamp_rx =
     [One Digit, One Digit, One (Lit CHR '':''), One Digit, One Digit, One (Lit CHR '':''),
      One Digit, One Digit, Plus Space,
      One Digit, One Digit, One Digit, One Digit, One (Lit CHR ''/''),
      One Digit, One Digit, One (Lit CHR ''/''), One Digit, One Digit]"

text \<open>\<open>/^---:\s+([A-F0-9]+)$/i\<close>: a divider that carries a hash and no timestamp.\<close>

definition hash_divider_rx :: "rx_item list" where
  "hash_divider_rx = lits ''---:'' @ [Plus Space, Plus Hex]"

text \<open>\<open>/^---:\s+[A-F0-9]+\s+\d{2}:\d{2}:\d{2}\s+\d{4}\/\d{2}\/\d{2}$/i\<close>\<close>

definition enhancedDividerPattern :: "string \<Rightarrow> bool" where
  "enhancedDividerPattern line = matches (hash_divider_rx @ [Plus Space] @ timestamp_rx) line"

section \<open>FileProcessor: splitting a document in memory\<close>

text \<open>The divider pattern \<open>/^---:\s*$/\<close> of \<open>FileProcessor\<close> and \<open>StreamingFileProcessor\<close>.\<close>

definition dividerPattern :: "string \<Rightarrow> bool" where
  "dividerPattern line = matches (lits ''---:'' @ [Star Space]) line"

record doc_section =
  index :: nat
  content :: string
  hasDivider :: bool
  originalDividerLine :: "string option"
  lineStart :: int
  lineEnd :: int

text \<open>The local variables of the loop of \<open>splitContent\<close>.\<close>

record split_state =
  sections :: "doc_section list"
  currentSection :: "string list"
  sectionIndex :: nat
  currentSectionStartsWithDivider :: bool
  currentSectionDividerLine :: "string option"

definition push_section :: "int \<Rightarrow> split_state \<Rightarrow> doc_section list" where
  "push_section lastLine st = sections st @
     [\<lparr> index = sectionIndex st,
        content = join_nl (currentSection st),
        hasDivider = currentSectionStartsWithDivider st,
        originalDividerLine = currentSectionDividerLine st,
        lineStart = lastLine - int (length (currentSection st)) + 1,
        lineEnd = lastLine \<rparr>]"

text \<open>One iteration of the \<open>for\<close> loop, at index \<open>i\<close> with \<open>line = lines[i]\<close>.\<close>

definition split_step :: "nat \<Rightarrow> string \<Rightarrow> split_state \<Rightarrow> split_state" where
  "split_step i line st =
     (if dividerPattern line then
        (let st1 =
           (if length (currentSection st) > 0 then
              st\<lparr> sections := push_section (int i) st,
                  currentSection := [],
                  sectionIndex := sectionIndex st + 1,
                  currentSectionStartsWithDivider := False,
                  currentSectionDividerLine := None \<rparr>
            else st)
         in st1\<lparr> currentSection := currentSection st1 @ [line],
                 currentSectionStartsWithDivider := True,
                 currentSectionDividerLine := Some line \<rparr>)
      else st\<lparr> currentSection := currentSection st @ [line] \<rparr>)"

fun split_loop :: "nat \<Rightarrow> string list \<Rightarrow> split_state \<Rightarrow> split_state" where
  "split_loop i [] st = st"
| "split_loop i (line # rest) st = split_loop (Suc i) rest (split_step i line st)"

definition split_init :: split_state where
  "split_init = \<lparr> sections = [], currentSection = [], sectionIndex = 0,
     currentSectionStartsWithDivider = False, currentSectionDividerLine = None \<rparr>"

text \<open>
  \<open>FileProcessor.splitContent\<close>. The argument is a string by its type, and the sections
  built here always pass \<open>validateSections\<close>, so no branch of the function throws.
\<close>

definition splitContent :: "string \<Rightarrow> doc_section list" where
  "splitContent doc =
     (if length doc = 0 then []
      else
        (let lines = split_nl doc;
             st = split_loop 0 lines split_init
         in if length (currentSection st) > 0
            then push_section (int (length lines)) st
            else sections st))"

section \<open>Auxiliary notions for the proofs\<close>

text \<open>A list of sections whose line ranges follow each other from line \<open>s\<close> and whose indices count from \<open>k\<close>.\<close>

fun chained :: "int \<Rightarrow> nat \<Rightarrow> doc_section list \<Rightarrow> bool" where
  "chained s k [] = True"
| "chained s k (x # xs) = (lineStart x = s \<and> index x = k \<and> lineStart x \<le> lineEnd x \<and> chained (lineEnd x + 1) (Suc k) xs)"

fun end_from :: "int \<Rightarrow> doc_section list \<Rightarrow> int" where
  "end_from s [] = s - 1"
| "end_from s (x # xs) = end_from (lineEnd x + 1) xs"

text \<open>The invariant of the loop of \<open>splitContent\<close> before iteration \<open>i\<close>.\<close>

definition split_inv :: "nat \<Rightarrow> split_state \<Rightarrow> bool" where
  "split_inv i st = (chained 1 0 (sections st) \<and> sectionIndex st = length (sections st)
     \<and> end_from 1 (sections st) + int (length (currentSection st)) = int i)"

section \<open>HashGenerator\<close>

datatype error =
    MissingContent      \<comment> \<open>"Section must have content property"\<close>
  | InvalidLineRange    \<comment> \<open>"Invalid line range"\<close>
  | LineTooLong nat     \<comment> \<open>"Line n exceeds maximum length"\<close>
  | InvalidPath         \<comment> \<open>"File path must be a non-empty string"\<close>
  | FileNotFound        \<comment> \<open>the file system's ENOENT\<close>

text \<open>\<open>s.replace(/\r\n/g, "\n")\<close>: every CR LF pair, scanning from the left.\<close>

fun replace_crlf :: "string \<Rightarrow> string" where
  "replace_crlf (c # d # cs) =
     (if c = CR \<and> d = NL then NL # replace_crlf cs else c # replace_crlf (d # cs))"
| "replace_crlf cs = cs"

text \<open>\<open>s.replace(/\r/g, "\n")\<close>.\<close>

definition replace_cr :: "string \<Rightarrow> string" where
  "replace_cr s = map (\<lambda>c. if c = CR then NL else c) s"

text \<open>
  \<open>s.replace(/\n+$/, "\n")\<close>: the leftmost match of \<open>\n+$\<close> is the whole run of newlines
  at the end of the string, when there is one; it is replaced by one newline.
\<close>

definition replace_trailing_newlines :: "string \<Rightarrow> string" where
  "replace_trailing_newlines s =
     (if takeWhile (\<lambda>c. c = NL) (rev s) = [] then s
      else rev (dropWhile (\<lambda>c. c = NL) (rev s)) @ [NL])"

definition normalizeContent :: "string \<Rightarrow> string" where
  "normalizeContent s = replace_trailing_newlines (replace_cr (replace_crlf (trim s)))"

text \<open>
  \<open>toUpperCase\<close> on the strings it is applied to here: hexadecimal digests and the hash
  captured by \<open>[A-F0-9]+\<close> under the flag \<open>i\<close>, both ASCII.
\<close>

definition upper_char :: "char \<Rightarrow> char" where
  "upper_char c =
     (case map_of (zip ''abcdefghijklmnopqrstuvwxyz'' ''ABCDEFGHIJKLMNOPQRSTUVWXYZ'') c of
        Some u \<Rightarrow> u
      | None \<Rightarrow> c)"

definition toUpperCase :: "string \<Rightarrow> string" where
  "toUpperCase s = map upper_char s"

text \<open>
  \<open>generateHash\<close>. The digest of the platform's \<open>crypto\<close> module, for the configured
  algorithm and encoding, is the parameter \<open>dg\<close>; \<open>len\<close> is the configured length.
  The argument is a string by its type, so the type check cannot throw.
\<close>

definition generateHash :: "(string \<Rightarrow> string) \<Rightarrow> nat \<Rightarrow> string \<Rightarrow> string" where
  "generateHash dg len s = toUpperCase (take len (dg (normalizeContent s)))"

text \<open>\<open>xs.findIndex(p)\<close>, with \<open>None\<close> for \<open>-1\<close>.\<close>

fun findIndex :: "('a \<Rightarrow> bool) \<Rightarrow> 'a list \<Rightarrow> nat option" where
  "findIndex p [] = None"
| "findIndex p (x # xs) =
     (if p x then Some 0 else (case findIndex p xs of None \<Rightarrow> None | Some i \<Rightarrow> Some (Suc i)))"

text \<open>The text that \<open>generateSectionHash\<close> hands to \<open>generateHash\<close>.\<close>

definition contentToHash :: "doc_section \<Rightarrow> string" where
  "contentToHash s =
     (case originalDividerLine s of
        None \<Rightarrow> content s
      | Some d \<Rightarrow>
          if hasDivider s \<and> d \<noteq> [] then
            (let lines = split_nl (content s) in
             case findIndex (\<lambda>line. trim line = trim d) lines of
               None \<Rightarrow> content s
             | Some dividerIndex \<Rightarrow> join_nl (take dividerIndex lines @ drop (Suc dividerIndex) lines))
          else content s)"

definition generateSectionHash :: "(string \<Rightarrow> string) \<Rightarrow> nat \<Rightarrow> doc_section \<Rightarrow> error + string" where
  "generateSectionHash dg len s =
     (if content s = [] then Inl MissingContent
      else Inr (generateHash dg len (contentToHash s)))"

text \<open>
  A stand-in for the platform's digest in the worked examples below: the hexadecimal
  encoding of the text, followed by eight zeros so that it never is shorter than the
  default hash length.
\<close>

definition hex_digit :: "nat \<Rightarrow> char" where
  "hex_digit n = ''0123456789abcdef'' ! (n mod 16)"

definition example_digest :: "string \<Rightarrow> string" where
  "example_digest s =
     concat (map (\<lambda>c. [hex_digit (of_char c div 16), hex_digit (of_char c)]) s) @ ''00000000''"



text \<open>
  A section's content with its divider line taken out, as the divider-exclusion property
  words it: the first line that equals the divider up to surrounding white space is
  removed.
\<close>

fun remove_first :: "('a \<Rightarrow> bool) \<Rightarrow> 'a list \<Rightarrow> 'a list" where
  "remove_first p [] = []"
| "remove_first p (x # xs) = (if p x then xs else x # remove_first p xs)"

definition without_divider_line :: "string \<Rightarrow> string \<Rightarrow> string" where
  "without_divider_line d c = join_nl (remove_first (\<lambda>line. trim line = trim d) (split_nl c))"

section \<open>DocumentReconstructor\<close>

text \<open>
  \<open>line.match(this.referencePattern)\<close> for
  \<open>/^---:\s+([A-F0-9]+)(?:\s+\d{2}:\d{2}:\d{2}\s+\d{4}\/\d{2}\/\d{2})?$/i\<close>: the line matches
  without or with the optional group. The result is the text of group 1. Since a hash
  character is no white space, the group can only be the longest run of hash characters
  after the white space that follows \<open>---:\<close>.
\<close>

definition referencePattern :: "string \<Rightarrow> string option" where
  "referencePattern line =
     (if matches hash_divider_rx line \<or> enhancedDividerPattern line
      then Some (takeWhile is_hex (dropWhile is_space (drop 4 line)))
      else None)"

record reference =
  hash :: string
  originalLine :: string
  lineNumber :: nat

record extracted =
  baseContent :: string
  references :: "reference list"

text \<open>
  The first pass of \<open>extractReferences\<close>: the state is the list \<open>references\<close> and
  \<open>referenceStartIndex\<close>, which is \<open>-1\<close> until the first reference is seen.
\<close>

fun scan_references :: "nat \<Rightarrow> string list \<Rightarrow> reference list \<times> int \<Rightarrow> reference list \<times> int" where
  "scan_references i [] st = st"
| "scan_references i (line # rest) (refs, referenceStartIndex) =
     scan_references (Suc i) rest
       (case referencePattern line of
          None \<Rightarrow> (refs, referenceStartIndex)
        | Some m \<Rightarrow>
            (refs @ [\<lparr> hash = toUpperCase m, originalLine = line, lineNumber = i + 1 \<rparr>],
             if referenceStartIndex = - 1 then int i else referenceStartIndex))"

text \<open>The \<open>while\<close> loop that walks back over the blank lines before the first reference.\<close>

fun skip_blank_back :: "string list \<Rightarrow> nat \<Rightarrow> nat" where
  "skip_blank_back lines 0 = 0"
| "skip_blank_back lines (Suc a) =
     (if trim (lines ! a) = [] then skip_blank_back lines a else Suc a)"

definition extractReferences :: "string \<Rightarrow> extracted" where
  "extractReferences doc =
     (let lines = split_nl doc;
          (refs, referenceStartIndex) = scan_references 0 lines ([], - 1)
      in if referenceStartIndex = - 1
         then \<lparr> baseContent = trim doc, references = [] \<rparr>
         else
           (let actualReferenceStart = skip_blank_back lines (nat referenceStartIndex)
            in \<lparr> baseContent = trim (join_nl (take actualReferenceStart lines)),
                 references = refs \<rparr>))"

definition cleanReferencedContent :: "string \<Rightarrow> string" where
  "cleanReferencedContent doc =
     (case split_nl doc of
        [] \<Rightarrow> join_nl []
      | firstLine # rest \<Rightarrow>
          if enhancedDividerPattern firstLine then join_nl (''---:'' # rest)
          else join_nl (firstLine # rest))"

text \<open>
  The references as the specification words them: every line that matches the
  reference-divider pattern, with the hash in upper case and the 1-based line number, in
  order of appearance.
\<close>

definition spec_references :: "nat \<Rightarrow> string list \<Rightarrow> reference list" where
  "spec_references n lines =
     List.map_filter
       (\<lambda>(i, line). case referencePattern line of
            None \<Rightarrow> None
          | Some m \<Rightarrow> Some \<lparr> hash = toUpperCase m, originalLine = line, lineNumber = i + 1 \<rparr>)
       (enumerate n lines)"

section \<open>Files and the platform's line reader\<close>

text \<open>A directory: the content of each file in it, by file name.\<close>

type_synonym directory = "string \<rightharpoonup> string"

text \<open>Reading a file: its content, or \<open>None\<close> when there is no file of that name.\<close>

definition readFile :: "directory \<Rightarrow> string \<Rightarrow> string option" where
  "readFile dir filePath = dir filePath"

text \<open>
  The lines that the platform's \<open>readline\<close> interface (with \<open>crlfDelay: Infinity\<close>) yields
  for a stream: the text is cut at every CR LF, LF and CR, and a last piece is a line only
  if it is not empty.
\<close>

fun readline_split :: "string \<Rightarrow> string list" where
  "readline_split [] = [[]]"
| "readline_split [c] = (if c = NL \<or> c = CR then [[], []] else [[c]])"
| "readline_split (c # d # cs) =
     (if c = CR \<and> d = NL then [] # readline_split cs
      else if c = NL \<or> c = CR then [] # readline_split (d # cs)
      else (case readline_split (d # cs) of [] \<Rightarrow> [[c]] | l # ls \<Rightarrow> (c # l) # ls))"

definition readline_lines :: "string \<Rightarrow> string list" where
  "readline_lines s =
     (let pieces = readline_split s
      in if last pieces = [] then butlast pieces else pieces)"

section \<open>StreamingFileProcessor\<close>

text \<open>
  The loop of \<open>extractSection\<close>: \<open>n\<close> is \<open>lineNumber\<close> before the iteration, \<open>acc\<close> the array
  \<open>lines\<close>; the loop is left once \<open>lineNumber > endLine\<close>.
\<close>

fun extract_loop :: "int \<Rightarrow> int \<Rightarrow> int \<Rightarrow> string list \<Rightarrow> string list \<Rightarrow> string list" where
  "extract_loop s e n [] acc = acc"
| "extract_loop s e n (line # rest) acc =
     (let lineNumber = n + 1;
          acc' = (if lineNumber \<ge> s \<and> lineNumber \<le> e then acc @ [line] else acc)
      in if lineNumber > e then acc' else extract_loop s e lineNumber rest acc')"

definition extractSection :: "directory \<Rightarrow> string \<Rightarrow> int \<Rightarrow> int \<Rightarrow> error + string" where
  "extractSection dir filePath startLine endLine =
     (if startLine < 1 \<or> endLine < startLine then Inl InvalidLineRange
      else
        (case readFile dir filePath of
           None \<Rightarrow> Inl FileNotFound
         | Some file \<Rightarrow> Inr (join_nl (extract_loop startLine endLine 0 (readline_lines file) []))))"

text \<open>
  \<open>FileProcessor.readAndSplit\<close>: the path checks, the existence check and
  \<open>fs.readFile\<close>, then \<open>splitContent\<close>.
\<close>

definition readAndSplit :: "directory \<Rightarrow> string \<Rightarrow> error + doc_section list" where
  "readAndSplit dir filePath =
     (if filePath = [] \<or> trim filePath = [] then Inl InvalidPath
      else
        (case readFile dir filePath of
           None \<Rightarrow> Inl FileNotFound
         | Some file \<Rightarrow> Inr (splitContent file)))"

text \<open>
  The section metadata of \<open>analyzeFile\<close>. The byte counts (\<open>estimatedSize\<close>, \<open>totalSize\<close>),
  the modification time and the \<open>hashIndex\<close> map are left out: nothing below reads them.
\<close>

record section_meta =
  startLine :: int
  endLine :: "int option"
  lineCount :: nat
  meta_hash :: "string option"
  meta_hasDivider :: bool

record analyze_state =
  an_sections :: "section_meta list"
  an_dividerLines :: "nat list"
  an_currentSection :: section_meta
  an_lineNumber :: nat

text \<open>\<open>StreamingFileProcessor.generateSectionHash(filePath, startLine, endLine)\<close>\<close>

definition stream_generateSectionHash ::
  "(string \<Rightarrow> string) \<Rightarrow> nat \<Rightarrow> directory \<Rightarrow> string \<Rightarrow> int \<Rightarrow> int \<Rightarrow> error + string" where
  "stream_generateSectionHash dg len dir filePath s e =
     (case extractSection dir filePath s e of
        Inl err \<Rightarrow> Inl err
      | Inr text \<Rightarrow>
          generateSectionHash dg len
            \<lparr> index = 0, content = text, hasDivider = False, originalDividerLine = None,
              lineStart = 0, lineEnd = 0 \<rparr>)"

definition new_section :: "int \<Rightarrow> bool \<Rightarrow> section_meta" where
  "new_section s d =
     \<lparr> startLine = s, endLine = None, lineCount = 0, meta_hash = None, meta_hasDivider = d \<rparr>"

text \<open>One iteration of the \<open>for await\<close> loop of \<open>analyzeFile\<close>.\<close>

definition analyze_step ::
  "(string \<Rightarrow> string) \<Rightarrow> nat \<Rightarrow> nat \<Rightarrow> directory \<Rightarrow> string \<Rightarrow> analyze_state \<Rightarrow> string
     \<Rightarrow> error + analyze_state" where
  "analyze_step dg len maxLineLength dir filePath st line =
     (let lineNumber = an_lineNumber st + 1 in
      if length line > maxLineLength then Inl (LineTooLong lineNumber)
      else
        (let cur = (an_currentSection st)\<lparr> lineCount := lineCount (an_currentSection st) + 1 \<rparr> in
         if dividerPattern line then
           (let ended = cur\<lparr> endLine := Some (int lineNumber - 1) \<rparr>;
                next = new_section (int lineNumber + 1) True
            in if lineCount ended > 1 then
                 (case stream_generateSectionHash dg len dir filePath
                         (startLine ended) (int lineNumber - 1) of
                    Inl err \<Rightarrow> Inl err
                  | Inr h \<Rightarrow>
                      Inr (st\<lparr> an_sections := an_sections st @ [ended\<lparr> meta_hash := Some h \<rparr>],
                               an_dividerLines := an_dividerLines st @ [lineNumber],
                               an_currentSection := next,
                               an_lineNumber := lineNumber \<rparr>))
               else
                 Inr (st\<lparr> an_dividerLines := an_dividerLines st @ [lineNumber],
                          an_currentSection := next,
                          an_lineNumber := lineNumber \<rparr>))
         else Inr (st\<lparr> an_currentSection := cur, an_lineNumber := lineNumber \<rparr>)))"

fun analyze_loop ::
  "(string \<Rightarrow> string) \<Rightarrow> nat \<Rightarrow> nat \<Rightarrow> directory \<Rightarrow> string \<Rightarrow> string list \<Rightarrow> analyze_state
     \<Rightarrow> error + analyze_state" where
  "analyze_loop dg len maxLineLength dir filePath [] st = Inr st"
| "analyze_loop dg len maxLineLength dir filePath (line # rest) st =
     (case analyze_step dg len maxLineLength dir filePath st line of
        Inl err \<Rightarrow> Inl err
      | Inr st' \<Rightarrow> analyze_loop dg len maxLineLength dir filePath rest st')"

text \<open>
  \<open>analyzeFile\<close>, after \<open>validateInputFile\<close>: the loop over the lines of the file and the
  final section. The result is the state, whose \<open>an_lineNumber\<close> is \<open>totalLines\<close>.
\<close>

definition analyzeFile ::
  "(string \<Rightarrow> string) \<Rightarrow> nat \<Rightarrow> nat \<Rightarrow> directory \<Rightarrow> string \<Rightarrow> error + analyze_state" where
  "analyzeFile dg len maxLineLength dir filePath =
     (if filePath = [] \<or> trim filePath = [] then Inl InvalidPath
      else
        (case readFile dir filePath of
           None \<Rightarrow> Inl FileNotFound
         | Some file \<Rightarrow>
             (case analyze_loop dg len maxLineLength dir filePath (readline_lines file)
                     \<lparr> an_sections = [], an_dividerLines = [],
                       an_currentSection = new_section 1 False, an_lineNumber = 0 \<rparr> of
                Inl err \<Rightarrow> Inl err
              | Inr st \<Rightarrow>
                  if lineCount (an_currentSection st) > 0 then
                    (let ended = (an_currentSection st)\<lparr> endLine := Some (int (an_lineNumber st)) \<rparr>
                     in case stream_generateSectionHash dg len dir filePath
                               (startLine ended) (int (an_lineNumber st)) of
                          Inl err \<Rightarrow> Inl err
                        | Inr h \<Rightarrow>
                            Inr (st\<lparr> an_sections := an_sections st @ [ended\<lparr> meta_hash := Some h \<rparr>] \<rparr>))
                  else Inr st)))"

record stream_section =
  stream_content :: string
  stream_hash :: "string option"
  lineRange :: "int \<times> int option"
  stream_hasDivider :: bool

text \<open>The loop of \<open>streamSplit\<close> over \<open>metadata.sections\<close>.\<close>

fun stream_sections :: "directory \<Rightarrow> string \<Rightarrow> section_meta list \<Rightarrow> error + stream_section list" where
  "stream_sections dir filePath [] = Inr []"
| "stream_sections dir filePath (sectionMeta # rest) =
     (case endLine sectionMeta of
        None \<Rightarrow> Inl InvalidLineRange
      | Some e \<Rightarrow>
          (case extractSection dir filePath (startLine sectionMeta) e of
             Inl err \<Rightarrow> Inl err
           | Inr text \<Rightarrow>
               (case stream_sections dir filePath rest of
                  Inl err \<Rightarrow> Inl err
                | Inr secs \<Rightarrow>
                    Inr (\<lparr> stream_content = text, stream_hash = meta_hash sectionMeta,
                           lineRange = (startLine sectionMeta, endLine sectionMeta),
                           stream_hasDivider = meta_hasDivider sectionMeta \<rparr> # secs))))"

definition streamSplit ::
  "(string \<Rightarrow> string) \<Rightarrow> nat \<Rightarrow> nat \<Rightarrow> directory \<Rightarrow> string \<Rightarrow> error + stream_section list" where
  "streamSplit dg len maxLineLength dir filePath =
     (case analyzeFile dg len maxLineLength dir filePath of
        Inl err \<Rightarrow> Inl err
      | Inr st \<Rightarrow> stream_sections dir filePath (an_sections st))"

text \<open>
  A section's content after its own divider line: what is left of an in-memory section
  when the line that opened it is not counted.
\<close>

definition section_body :: "doc_section \<Rightarrow> string" where
  "section_body s = (if hasDivider s then join_nl (tl (split_nl (content s))) else content s)"

text \<open>
  The exception of the specification: a divider-only run, that is two consecutive divider
  lines with no content line between them.
\<close>

fun divider_only_run :: "string list \<Rightarrow> bool" where
  "divider_only_run (l # m # rest) =
     ((dividerPattern l \<and> dividerPattern m) \<or> divider_only_run (m # rest))"
| "divider_only_run ls = False"

text \<open>The content lines of the pending section of \<open>splitContent\<close>, without its divider.\<close>

definition run_of :: "split_state \<Rightarrow> string list" where
  "run_of st =
     (if currentSectionStartsWithDivider st then tl (currentSection st) else currentSection st)"

text \<open>
  The relation between the state of \<open>splitContent\<close> and the state of \<open>analyzeFile\<close> after
  both have read the same lines of the file whose lines are \<open>L\<close>.
\<close>

definition sim :: "directory \<Rightarrow> string \<Rightarrow> string list \<Rightarrow> split_state \<Rightarrow> analyze_state \<Rightarrow> bool" where
  "sim dir filePath L st an =
     (an_lineNumber an \<le> length L
      \<and> startLine (an_currentSection an)
          = int (an_lineNumber an) - int (length (run_of st)) + 1
      \<and> lineCount (an_currentSection an) = length (run_of st)
      \<and> length (run_of st) \<le> an_lineNumber an
      \<and> run_of st = drop (an_lineNumber an - length (run_of st)) (take (an_lineNumber an) L)
      \<and> (currentSectionStartsWithDivider st \<longrightarrow> currentSection st \<noteq> [])
      \<and> (\<forall>l \<in> set (currentSection st). NL \<notin> set l)
      \<and> (\<exists>ss. stream_sections dir filePath (an_sections an) = Inr ss
               \<and> map stream_content ss = map section_body (sections st)))"

section \<open>HybridFileProcessor\<close>

text \<open>
  \<open>stats.size\<close>, the number of bytes of a file in UTF-8: a code unit below 128 takes one
  byte, the other code units of the model (below 256) take two.
\<close>

definition byteLength :: "string \<Rightarrow> nat" where
  "byteLength s = sum_list (map (\<lambda>c. if (of_char c :: nat) < 128 then 1 else 2) s)"

text \<open>
  \<open>options.streamingThreshold || 10 * 1024 * 1024\<close> of the constructor: the option, when
  it is given and not zero.
\<close>

definition streamingThreshold :: "nat option \<Rightarrow> nat" where
  "streamingThreshold opt =
     (case opt of
        None \<Rightarrow> 10 * 1024 * 1024
      | Some t \<Rightarrow> if t = 0 then 10 * 1024 * 1024 else t)"

text \<open>
  What \<open>HybridFileProcessor.readAndSplit\<close> returns: the sections of the in-memory
  processor or those of the streaming processor.
\<close>

datatype split_result =
    MemorySections "doc_section list"
  | StreamingSections "stream_section list"

text \<open>
  \<open>HybridFileProcessor.readAndSplit\<close>: \<open>fs.stat\<close> fails when there is no file of that name;
  a file larger than the threshold goes to \<open>streamSplit\<close>, every other file to
  \<open>FileProcessor.readAndSplit\<close>.
\<close>

definition hybrid_readAndSplit ::
  "nat \<Rightarrow> (string \<Rightarrow> string) \<Rightarrow> nat \<Rightarrow> nat \<Rightarrow> directory \<Rightarrow> string \<Rightarrow> error + split_result" where
  "hybrid_readAndSplit threshold dg len maxLineLength dir filePath =
     (case readFile dir filePath of
        None \<Rightarrow> Inl FileNotFound
      | Some file \<Rightarrow>
          if byteLength file > threshold then
            (case streamSplit dg len maxLineLength dir filePath of
               Inl err \<Rightarrow> Inl err
             | Inr secs \<Rightarrow> Inr (StreamingSections secs))
          else
            (case readAndSplit dir filePath of
               Inl err \<Rightarrow> Inl err
             | Inr secs \<Rightarrow> Inr (MemorySections secs)))"

text \<open>The section contents of a result, in order.\<close>

fun section_contents :: "split_result \<Rightarrow> string list" where
  "section_contents (MemorySections secs) = map content secs"
| "section_contents (StreamingSections secs) = map stream_content secs"

section \<open>TimestampUtils\<close>

text \<open>
  A \<open>Date\<close>, by the values of the getters that \<open>formatTimestamp\<close> reads (the local or the
  UTC ones, as the time zone option selects).
\<close>

record date =
  getHours :: nat
  getMinutes :: nat
  getSeconds :: nat
  getFullYear :: nat
  getMonth :: nat
  getDate :: nat

text \<open>\<open>n.toString()\<close> for a natural number, and \<open>.padStart(2, "0")\<close> of it.\<close>

fun decimal :: "nat \<Rightarrow> string" where
  "decimal n = (if n < 10 then [hex_digit n] else decimal (n div 10) @ [hex_digit (n mod 10)])"

declare decimal.simps [simp del]

definition pad2 :: "nat \<Rightarrow> string" where
  "pad2 n = (if length (decimal n) < 2 then ''0'' @ decimal n else decimal n)"

definition formatTimestamp :: "date \<Rightarrow> string" where
  "formatTimestamp d =
     pad2 (getHours d) @ '':'' @ pad2 (getMinutes d) @ '':'' @ pad2 (getSeconds d) @ '' ''
       @ decimal (getFullYear d) @ ''/'' @ pad2 (getMonth d + 1) @ ''/'' @ pad2 (getDate d)"

definition createDividerLine :: "string \<Rightarrow> date \<Rightarrow> string" where
  "createDividerLine h d = ''---: '' @ h @ '' '' @ formatTimestamp d"

section \<open>FileWriter\<close>

text \<open>
  \<open>s.replace(pattern, replacement)\<close> with a string pattern: the first occurrence of the
  pattern is replaced; in the replacement, \<open>$$\<close> stands for \<open>$\<close>, \<open>$&\<close> for the matched text,
  \<open>$`\<close> for the text before it and \<open>$'\<close> for the text after it.
\<close>

fun expand_replacement :: "string \<Rightarrow> string \<Rightarrow> string \<Rightarrow> string \<Rightarrow> string" where
  "expand_replacement m pre post (c # c' # r) =
     (if c = CHR ''$'' \<and> c' = CHR ''$'' then CHR ''$'' # expand_replacement m pre post r
      else if c = CHR ''$'' \<and> c' = CHR ''&'' then m @ expand_replacement m pre post r
      else if c = CHR ''$'' \<and> c' = CHR 0x60 then pre @ expand_replacement m pre post r
      else if c = CHR ''$'' \<and> c' = CHR 0x27 then post @ expand_replacement m pre post r
      else c # expand_replacement m pre post (c' # r))"
| "expand_replacement m pre post r = r"

fun replace_from :: "string \<Rightarrow> string \<Rightarrow> string \<Rightarrow> string \<Rightarrow> string" where
  "replace_from pat rep pre [] = (if pat = [] then pre @ expand_replacement pat pre [] rep else pre)"
| "replace_from pat rep pre (c # cs) =
     (if take (length pat) (c # cs) = pat
      then pre @ expand_replacement pat pre (drop (length pat) (c # cs)) rep
             @ drop (length pat) (c # cs)
      else replace_from pat rep (pre @ [c]) cs)"

definition replace_first :: "string \<Rightarrow> string \<Rightarrow> string \<Rightarrow> string" where
  "replace_first pat rep s = replace_from pat rep [] s"

text \<open>
  The configuration of a \<open>FileWriter\<close>. The output directory is the directory the functions
  below work on. \<open>sourceBaseName\<close> is \<open>path.basename(sourceFilename, path.extname(sourceFilename))\<close>
  when the option \<open>sourceFilename\<close> is given.
\<close>

record file_writer =
  fileExtension :: string
  digest :: "string \<Rightarrow> string"
  hashLength :: nat
  overwriteExisting :: bool
  sourceBaseName :: "string option"
  addReferences :: bool

text \<open>
  The three shapes of a write result: written (\<open>success: true\<close>, with hash, file name and the
  section's index and divider flag), skipped (\<open>reason: "file_exists"\<close>, with hash and file
  name and no \<open>section\<close>), and failed (\<open>reason: "write_error"\<close>, with the section's index).
\<close>

datatype write_result =
    Written string string nat bool
  | Skipped string string
  | WriteError nat

definition modifyDividerInContent :: "doc_section \<Rightarrow> string \<Rightarrow> date \<Rightarrow> string" where
  "modifyDividerInContent s h timestamp =
     (case originalDividerLine s of
        None \<Rightarrow> content s
      | Some d \<Rightarrow>
          if \<not> hasDivider s \<or> d = [] then content s
          else replace_first d (createDividerLine h timestamp) (content s))"

text \<open>
  The file name that \<open>writeSection\<close> gives a section with hash \<open>h\<close>: the source's base name
  for the first section when it has no divider and the source file name is given, the
  hash otherwise.
\<close>

definition section_filename :: "file_writer \<Rightarrow> doc_section \<Rightarrow> string \<Rightarrow> string" where
  "section_filename w s h =
     (case sourceBaseName w of
        Some baseName \<Rightarrow>
          if index s = 0 \<and> \<not> hasDivider s then baseName @ fileExtension w
          else h @ fileExtension w
      | None \<Rightarrow> h @ fileExtension w)"

text \<open>
  \<open>writeSection\<close>: the result and the directory afterwards. An exception of
  \<open>generateSectionHash\<close> is the result \<open>Inl\<close>; the directory exists and writing a file
  succeeds.
\<close>

definition writeSection ::
  "file_writer \<Rightarrow> directory \<Rightarrow> doc_section \<Rightarrow> date \<Rightarrow> (error + write_result) \<times> directory" where
  "writeSection w dir s timestamp =
     (case generateSectionHash (digest w) (hashLength w) s of
        Inl err \<Rightarrow> (Inl err, dir)
      | Inr h \<Rightarrow>
          (let filename = section_filename w s h
           in if \<not> overwriteExisting w \<and> dir filename \<noteq> None
              then (Inr (Skipped h filename), dir)
              else (Inr (Written h filename (index s) (hasDivider s)),
                    dir(filename \<mapsto> modifyDividerInContent s h timestamp))))"

text \<open>
  The first pass of \<open>writeSections\<close>; \<open>clock k\<close> is the \<open>Date\<close> handed to \<open>writeSection\<close> for
  the section at position \<open>k\<close> (the shared timestamp or the time of that iteration).
\<close>

fun write_loop ::
  "file_writer \<Rightarrow> (nat \<Rightarrow> date) \<Rightarrow> nat \<Rightarrow> doc_section list \<Rightarrow> directory \<Rightarrow> write_result list
     \<Rightarrow> directory \<times> write_result list" where
  "write_loop w clock k [] dir results = (dir, results)"
| "write_loop w clock k (s # rest) dir results =
     (case writeSection w dir s (clock k) of
        (Inl err, dir') \<Rightarrow> write_loop w clock (Suc k) rest dir' (results @ [WriteError (index s)])
      | (Inr result, dir') \<Rightarrow> write_loop w clock (Suc k) rest dir' (results @ [result]))"

text \<open>
  \<open>path.basename(filename, ext)\<close> for a file name without a path separator: an extension
  that is not empty and not longer than the name is cut off the end of the name when the
  name ends with it, and a name that is the extension itself gives the empty string.
\<close>

definition basename_ext :: "string \<Rightarrow> string \<Rightarrow> string" where
  "basename_ext filename ext =
     (if ext \<noteq> [] \<and> length ext \<le> length filename then
        (if ext = filename then []
         else if drop (length filename - length ext) filename = ext
         then take (length filename - length ext) filename
         else filename)
      else filename)"

fun is_first_file :: "write_result \<Rightarrow> bool" where
  "is_first_file (Written h filename i d) = (i = 0 \<and> \<not> d)"
| "is_first_file r = False"

fun is_other_file :: "write_result \<Rightarrow> bool" where
  "is_other_file (Written h filename i d) = (i \<noteq> 0)"
| "is_other_file r = False"

fun result_filename :: "write_result \<Rightarrow> string" where
  "result_filename (Written h filename i d) = filename"
| "result_filename (Skipped h filename) = filename"
| "result_filename (WriteError i) = []"

text \<open>The reference line \<open>`---: ${hash}`\<close> for a written file.\<close>

definition reference_line :: "string \<Rightarrow> string" where
  "reference_line h = ''---: '' @ h"

definition addReferencesToFirstFile :: "file_writer \<Rightarrow> directory \<Rightarrow> write_result list \<Rightarrow> directory" where
  "addReferencesToFirstFile w dir results =
     (case find is_first_file results of
        None \<Rightarrow> dir
      | Some firstFileResult \<Rightarrow>
          (let otherFiles = filter is_other_file results in
           if length otherFiles = 0 then dir
           else
             (case readFile dir (result_filename firstFileResult) of
                None \<Rightarrow> dir
              | Some currentContent \<Rightarrow>
                  (let referenceLines =
                         map (\<lambda>f. reference_line (basename_ext (result_filename f) (fileExtension w)))
                           otherFiles;
                       updatedContent = trim currentContent @ [NL, NL] @ join_nl referenceLines @ [NL]
                   in dir(result_filename firstFileResult \<mapsto> updatedContent)))))"

definition writeSections ::
  "file_writer \<Rightarrow> (nat \<Rightarrow> date) \<Rightarrow> directory \<Rightarrow> doc_section list \<Rightarrow> directory \<times> write_result list" where
  "writeSections w clock dir secs =
     (let (dir', results) = write_loop w clock 0 secs dir []
      in if addReferences w then (addReferencesToFirstFile w dir' results, results)
         else (dir', results))"

section \<open>Reconstructing a document\<close>

text \<open>\<open>xs.join("\n\n")\<close>\<close>

fun join_blank :: "string list \<Rightarrow> string" where
  "join_blank [] = []"
| "join_blank [x] = x"
| "join_blank (x # y # ys) = x @ [NL, NL] @ join_blank (y # ys)"

text \<open>
  The loop of \<open>combineReferencedFiles\<close>: a referenced file that does not exist is passed
  over.
\<close>

fun combine_loop :: "string \<Rightarrow> directory \<Rightarrow> reference list \<Rightarrow> string list" where
  "combine_loop ext searchDir [] = []"
| "combine_loop ext searchDir (r # rest) =
     (case readFile searchDir (hash r @ ext) of
        None \<Rightarrow> combine_loop ext searchDir rest
      | Some referencedContent \<Rightarrow>
          cleanReferencedContent referencedContent # combine_loop ext searchDir rest)"

definition combineReferencedFiles :: "string \<Rightarrow> directory \<Rightarrow> string \<Rightarrow> reference list \<Rightarrow> string" where
  "combineReferencedFiles ext searchDir base refs =
     join_blank (base # combine_loop ext searchDir refs)"

text \<open>
  \<open>reconstructDocument\<close>, for a main file in the directory that is searched for the
  referenced files (the main file's own directory or the configured \<open>inputDir\<close>).
\<close>

definition reconstructDocument :: "string \<Rightarrow> directory \<Rightarrow> string \<Rightarrow> error + string" where
  "reconstructDocument ext dir mainFilePath =
     (if mainFilePath = [] then Inl InvalidPath
      else
        (case readFile dir mainFilePath of
           None \<Rightarrow> Inl FileNotFound
         | Some mainContent \<Rightarrow>
             (let ex = extractReferences mainContent in
              if length (references ex) = 0 then Inr (baseContent ex)
              else Inr (combineReferencedFiles ext dir (baseContent ex) (references ex)))))"

text \<open>The hash that \<open>writeSection\<close> computes for a section with content.\<close>

definition section_hash :: "file_writer \<Rightarrow> doc_section \<Rightarrow> string" where
  "section_hash w s = generateHash (digest w) (hashLength w) (contentToHash s)"

text \<open>
  A section with its divider line in canonical form: the first line replaced by the bare
  divider.
\<close>

definition canonical_divider :: "doc_section \<Rightarrow> string" where
  "canonical_divider s = join_nl (''---:'' # tl (split_nl (content s)))"

text \<open>
  The canonical form as the specification words it: the divider keeps the hash and drops
  the timestamp.
\<close>

definition spec_canonical_divider :: "file_writer \<Rightarrow> doc_section \<Rightarrow> string" where
  "spec_canonical_divider w s =
     join_nl (reference_line (section_hash w s) # tl (split_nl (content s)))"

definition example_writer :: file_writer where
  "example_writer = \<lparr> fileExtension = ''.md'', digest = example_digest, hashLength = 8,
     overwriteExisting = False, sourceBaseName = Some ''doc'', addReferences = True \<rparr>"

definition example_clock :: "nat \<Rightarrow> date" where
  "example_clock k = \<lparr> getHours = 9, getMinutes = 5, getSeconds = k mod 60, getFullYear = 2025,
     getMonth = 7, getDate = 16 \<rparr>"

text \<open>A \<open>Date\<close> whose year has four digits and whose other fields are in their ranges.\<close>

definition valid_date :: "date \<Rightarrow> bool" where
  "valid_date d = (getHours d < 24 \<and> getMinutes d < 60 \<and> getSeconds d < 60
     \<and> 1000 \<le> getFullYear d \<and> getFullYear d \<le> 9999 \<and> getMonth d < 12
     \<and> 1 \<le> getDate d \<and> getDate d \<le> 31)"

text \<open>
  What the loop of \<open>splitContent\<close> maintains about dividers: a section with a divider begins
  with its divider line, and only the first section can be without one.
\<close>

definition divider_section :: "doc_section \<Rightarrow> bool" where
  "divider_section s =
     (case originalDividerLine s of
        None \<Rightarrow> False
      | Some d \<Rightarrow> hasDivider s \<and> dividerPattern d \<and> take 1 (split_nl (content s)) = [d])"

definition split_inv2 :: "split_state \<Rightarrow> bool" where
  "split_inv2 st =
     (list_all (\<lambda>s. hasDivider s \<longrightarrow> divider_section s) (sections st)
      \<and> list_all hasDivider (tl (sections st))
      \<and> (sections st \<noteq> [] \<longrightarrow> currentSectionStartsWithDivider st)
      \<and> (currentSectionStartsWithDivider st \<longrightarrow>
            (case currentSectionDividerLine st of
               None \<Rightarrow> False
             | Some d \<Rightarrow> dividerPattern d \<and> take 1 (currentSection st) = [d]))
      \<and> list_all (\<lambda>l. NL \<notin> set l) (currentSection st))"

section \<open>Facts about splitting and joining\<close>

lemma split_nl_nonempty: "split_nl s \<noteq> []"
  by (induction s) (auto split: list.splits)

lemma join_nl_Cons: "ys \<noteq> [] \<Longrightarrow> join_nl (x # ys) = x @ NL # join_nl ys"
  by (cases ys) simp_all

lemma join_split_nl: "join_nl (split_nl s) = s"
proof (induction s)
  case Nil
  show ?case by simp
next
  case (Cons c cs)
  show ?case
  proof (cases "c = NL")
    case True
    with Cons show ?thesis by (simp add: join_nl_Cons split_nl_nonempty)
  next
    case False
    obtain l ls where sp: "split_nl cs = l # ls"
      using split_nl_nonempty by (cases "split_nl cs") auto
    have "join_nl ((c # l) # ls) = c # join_nl (l # ls)"
      by (cases ls) simp_all
    with Cons False sp show ?thesis by simp
  qed
qed

lemma join_nl_append:
  "xs \<noteq> [] \<Longrightarrow> ys \<noteq> [] \<Longrightarrow> join_nl (xs @ ys) = join_nl xs @ NL # join_nl ys"
proof (induction xs)
  case Nil
  then show ?case by simp
next
  case (Cons x xs)
  show ?case
  proof (cases "xs = []")
    case True
    with Cons.prems show ?thesis by (simp add: join_nl_Cons)
  next
    case False
    with Cons show ?thesis by (simp add: join_nl_Cons)
  qed
qed

lemma join_nl_concat:
  "\<forall>g \<in> set gs. g \<noteq> [] \<Longrightarrow> join_nl (map join_nl gs) = join_nl (concat gs)"
proof (induction gs)
  case Nil
  show ?case by simp
next
  case (Cons g gs)
  show ?case
  proof (cases "gs = []")
    case True
    then show ?thesis by simp
  next
    case False
    then have "concat gs \<noteq> []" using Cons.prems by (cases gs) auto
    with Cons False show ?thesis by (simp add: join_nl_Cons join_nl_append)
  qed
qed

section \<open>Splitting loses nothing\<close>

lemma split_step_groups:
  assumes "\<forall>g\<in>set gs. g \<noteq> []" "map content (sections st) = map join_nl gs"
  shows "\<exists>gs'. (\<forall>g\<in>set gs'. g \<noteq> []) \<and> map content (sections (split_step i l st)) = map join_nl gs'
     \<and> concat gs' @ currentSection (split_step i l st) = concat gs @ currentSection st @ [l]"
proof (cases "dividerPattern l \<and> currentSection st \<noteq> []")
  case True
  with assms show ?thesis
    by (intro exI[of _ "gs @ [currentSection st]"]) (simp add: split_step_def push_section_def)
next
  case False
  with assms show ?thesis
    by (intro exI[of _ gs]) (auto simp add: split_step_def)
qed

lemma split_loop_groups:
  assumes "\<forall>g\<in>set gs. g \<noteq> []" "map content (sections st) = map join_nl gs"
  shows "\<exists>gs'. (\<forall>g\<in>set gs'. g \<noteq> []) \<and> map content (sections (split_loop i ls st)) = map join_nl gs'
     \<and> concat gs' @ currentSection (split_loop i ls st) = concat gs @ currentSection st @ ls"
  using assms
proof (induction ls arbitrary: i st gs)
  case Nil
  then show ?case by auto
next
  case (Cons l ls)
  from split_step_groups[OF Cons.prems, of i l]
  obtain gs1 where g1: "\<forall>g\<in>set gs1. g \<noteq> []"
      "map content (sections (split_step i l st)) = map join_nl gs1"
      "concat gs1 @ currentSection (split_step i l st) = concat gs @ currentSection st @ [l]"
    by blast
  from Cons.IH[OF g1(1) g1(2), of "Suc i"]
  obtain gs2 where g2: "\<forall>g\<in>set gs2. g \<noteq> []"
      "map content (sections (split_loop (Suc i) ls (split_step i l st))) = map join_nl gs2"
      "concat gs2 @ currentSection (split_loop (Suc i) ls (split_step i l st))
         = concat gs1 @ currentSection (split_step i l st) @ ls"
    by blast
  have "concat gs1 @ currentSection (split_step i l st) @ ls = concat gs @ currentSection st @ l # ls"
    using g1(3) by (metis append.assoc append_Cons append_Nil)
  with g2 show ?case by auto
qed

text \<open>
  Claim C1: for every string \<open>T\<close>, the content fields of the sections returned by
  \<open>splitContent T\<close>, joined in order with a single newline, are \<open>T\<close> itself.
  This covers the empty text (no section, empty join) and every text with bare dividers.
\<close>

theorem splitContent_join: "join_nl (map content (splitContent T)) = T"
proof (cases "T = []")
  case True
  then show ?thesis by (simp add: splitContent_def)
next
  case False
  define st where "st = split_loop 0 (split_nl T) split_init"
  have "\<exists>gs'. (\<forall>g\<in>set gs'. g \<noteq> []) \<and> map content (sections st) = map join_nl gs'
     \<and> concat gs' @ currentSection st = concat [] @ currentSection split_init @ split_nl T"
    unfolding st_def by (rule split_loop_groups) (simp_all add: split_init_def)
  then obtain gs where gs: "\<forall>g\<in>set gs. g \<noteq> []" "map content (sections st) = map join_nl gs"
     "concat gs @ currentSection st = split_nl T"
    by (auto simp: split_init_def)
  show ?thesis
  proof (cases "currentSection st = []")
    case True
    have "join_nl (map content (splitContent T)) = join_nl (map join_nl gs)"
      using False True gs(2) by (simp add: splitContent_def st_def[symmetric] Let_def)
    also have "\<dots> = join_nl (concat gs)" using gs(1) by (rule join_nl_concat)
    also have "\<dots> = T" using gs(3) True by (simp add: join_split_nl)
    finally show ?thesis .
  next
    case cur: False
    have "join_nl (map content (splitContent T)) = join_nl (map join_nl (gs @ [currentSection st]))"
      using False cur gs(2) by (simp add: splitContent_def st_def[symmetric] Let_def push_section_def)
    also have "\<dots> = join_nl (concat (gs @ [currentSection st]))"
      using gs(1) cur by (intro join_nl_concat) auto
    also have "\<dots> = T" using gs(3) by (simp add: join_split_nl)
    finally show ?thesis .
  qed
qed

theorem splitContent_join_witness:
  "map content (splitContent ''A\<newline>\<newline>---:\<newline>\<newline>B'') = [''A\<newline>'', ''---:\<newline>\<newline>B'']
   \<and> join_nl [''A\<newline>'', ''---:\<newline>\<newline>B''] = ''A\<newline>\<newline>---:\<newline>\<newline>B''"
proof -
  have e: "map content (splitContent ''A\<newline>\<newline>---:\<newline>\<newline>B'') = [''A\<newline>'', ''---:\<newline>\<newline>B'']"
    by code_simp
  from splitContent_join [of "''A\<newline>\<newline>---:\<newline>\<newline>B''"] e show ?thesis by simp
qed

section \<open>Line ranges of the sections\<close>

lemma chained_snoc:
  "chained s k (xs @ [x]) = (chained s k xs \<and> lineStart x = end_from s xs + 1 \<and> lineStart x \<le> lineEnd x \<and> index x = k + length xs)"
  by (induction xs arbitrary: s k) auto

lemma end_from_snoc: "end_from s (xs @ [x]) = lineEnd x"
  by (induction xs arbitrary: s) auto

lemma split_step_inv: "split_inv i st \<Longrightarrow> split_inv (Suc i) (split_step i l st)"
  by (auto simp: split_inv_def split_step_def push_section_def chained_snoc end_from_snoc Let_def
        Suc_le_eq)

lemma split_loop_inv: "split_inv i st \<Longrightarrow> split_inv (i + length ls) (split_loop i ls st)"
proof (induction ls arbitrary: i st)
  case Nil
  then show ?case by simp
next
  case (Cons l ls)
  from Cons.IH[OF split_step_inv[OF Cons.prems]] show ?case by simp
qed

lemma split_loop_cur_nonempty: "ls \<noteq> [] \<or> currentSection st \<noteq> [] \<Longrightarrow> currentSection (split_loop i ls st) \<noteq> []"
proof (induction ls arbitrary: i st)
  case Nil
  then show ?case by simp
next
  case (Cons l ls)
  have "currentSection (split_step i l st) \<noteq> []" by (simp add: split_step_def Let_def)
  with Cons.IH show ?case by simp
qed

lemma chained_nth: "chained s k xs \<Longrightarrow> j < length xs \<Longrightarrow>
   index (xs ! j) = k + j \<and> lineStart (xs ! j) = end_from s (take j xs) + 1"
proof (induction xs arbitrary: s k j)
  case Nil
  then show ?case by simp
next
  case (Cons x xs)
  then show ?case by (cases j) auto
qed

lemma chained_nonempty: "chained s k xs \<Longrightarrow> list_all (\<lambda>s. lineStart s \<le> lineEnd s) xs"
  by (induction xs arbitrary: s k) auto

lemma end_from_take_Suc: "j < length xs \<Longrightarrow> end_from s (take (Suc j) xs) = lineEnd (xs ! j)"
  by (simp add: take_Suc_conv_app_nth end_from_snoc)

lemma splitContent_chained:
  assumes "T \<noteq> []"
  shows "splitContent T \<noteq> [] \<and> chained 1 0 (splitContent T) \<and> end_from 1 (splitContent T) = int (length (split_nl T))"
proof -
  define st where "st = split_loop 0 (split_nl T) split_init"
  have inv: "split_inv (0 + length (split_nl T)) st"
    unfolding st_def by (rule split_loop_inv) (simp add: split_inv_def split_init_def)
  have cur: "currentSection st \<noteq> []"
    unfolding st_def by (rule split_loop_cur_nonempty) (simp add: split_nl_nonempty)
  have sc: "splitContent T = push_section (int (length (split_nl T))) st"
    using assms cur by (simp add: splitContent_def Let_def st_def[symmetric])
  show ?thesis using inv cur unfolding sc
    by (auto simp: split_inv_def push_section_def chained_snoc end_from_snoc Suc_le_eq)
qed

text \<open>
  Claim C8: for every non-empty string \<open>T\<close> the sections of \<open>splitContent T\<close> cover the
  lines of \<open>T\<close> contiguously and in order. There is at least one section, the first starts
  at line 1, each later one starts on the line after its predecessor's last line, the last
  one ends at the number of lines of \<open>T\<close>, every range is non-empty, and the index fields
  are 0, 1, 2, ... in order.
\<close>

theorem splitContent_lines_contiguous:
  assumes "T \<noteq> []"
  shows "splitContent T \<noteq> []
    \<and> lineStart (hd (splitContent T)) = 1
    \<and> (\<forall>j. Suc j < length (splitContent T) \<longrightarrow>
          lineStart (splitContent T ! Suc j) = lineEnd (splitContent T ! j) + 1)
    \<and> lineEnd (last (splitContent T)) = int (length (split_nl T))
    \<and> map index (splitContent T) = [0 ..< length (splitContent T)]
    \<and> list_all (\<lambda>s. lineStart s \<le> lineEnd s) (splitContent T)"
proof -
  let ?ss = "splitContent T"
  from splitContent_chained[OF assms]
  have ne: "?ss \<noteq> []" and ch: "chained 1 0 ?ss" and en: "end_from 1 ?ss = int (length (split_nl T))"
    by auto
  have a: "lineStart (hd ?ss) = 1" using ne ch by (cases ?ss) auto
  have b: "\<forall>j. Suc j < length ?ss \<longrightarrow> lineStart (?ss ! Suc j) = lineEnd (?ss ! j) + 1"
    using chained_nth[OF ch] by (auto simp: end_from_take_Suc)
  have c: "lineEnd (last ?ss) = int (length (split_nl T))"
    using ne en by (cases ?ss rule: rev_cases) (auto simp: end_from_snoc)
  have d: "map index ?ss = [0 ..< length ?ss]"
    using chained_nth[OF ch] by (intro nth_equalityI) auto
  have e: "list_all (\<lambda>s. lineStart s \<le> lineEnd s) ?ss"
    using ch by (rule chained_nonempty)
  from ne a b c d e show ?thesis by blast
qed


theorem splitContent_lines_contiguous_witness:
  "''A\<newline>\<newline>---:\<newline>\<newline>B'' \<noteq> []
   \<and> map (\<lambda>s. (index s, lineStart s, lineEnd s)) (splitContent ''A\<newline>\<newline>---:\<newline>\<newline>B'') = [(0, 1, 2), (1, 3, 5)]
   \<and> length (split_nl ''A\<newline>\<newline>---:\<newline>\<newline>B'') = 5
   \<and> lineStart (splitContent ''A\<newline>\<newline>---:\<newline>\<newline>B'' ! Suc 0) = lineEnd (splitContent ''A\<newline>\<newline>---:\<newline>\<newline>B'' ! 0) + 1
   \<and> lineEnd (last (splitContent ''A\<newline>\<newline>---:\<newline>\<newline>B'')) = 5"
proof -
  let ?T = "''A\<newline>\<newline>---:\<newline>\<newline>B''"
  have ne: "?T \<noteq> []" by simp
  have ev: "map (\<lambda>s. (index s, lineStart s, lineEnd s)) (splitContent ?T) = [(0, 1, 2), (1, 3, 5)]"
    by code_simp
  have n: "length (split_nl ?T) = 5" by code_simp
  have l: "Suc 0 < length (splitContent ?T)" by code_simp
  from splitContent_lines_contiguous [OF ne] l n ne ev show ?thesis by simp
qed

section \<open>Normalization before hashing\<close>










section \<open>The section hash leaves the divider line out\<close>

lemma findIndex_None: "findIndex p xs = None \<longleftrightarrow> (\<forall>x \<in> set xs. \<not> p x)"
  by (induction xs) (auto split: option.splits)

lemma findIndex_Some_remove:
  "findIndex p xs = Some i \<Longrightarrow> take i xs @ drop (Suc i) xs = remove_first p xs"
  by (induction xs arbitrary: i) (auto split: option.splits if_splits)

lemma join_nl_eq_Nil: "join_nl xs = [] \<longleftrightarrow> xs = [] \<or> xs = [[]]"
proof (cases xs)
  case Nil
  then show ?thesis by simp
next
  case (Cons x ys)
  then show ?thesis by (cases ys) auto
qed

lemma contentToHash_divider:
  assumes "hasDivider S" "originalDividerLine S = Some d" "d \<noteq> []"
    and "d \<in> set (split_nl (content S))"
  shows "contentToHash S = without_divider_line d (content S)"
proof -
  from assms(4) have "\<not> (\<forall>x \<in> set (split_nl (content S)). \<not> trim x = trim d)" by blast
  then obtain i where "findIndex (\<lambda>line. trim line = trim d) (split_nl (content S)) = Some i"
    using findIndex_None[of "\<lambda>line. trim line = trim d" "split_nl (content S)"] by auto
  with assms(1-3) show ?thesis
    by (simp add: contentToHash_def without_divider_line_def findIndex_Some_remove)
qed

text \<open>
  Claim C4, amended. Let \<open>S\<close> be a section with \<open>hasDivider\<close> set whose non-empty
  \<open>originalDividerLine\<close> is a line of its content, and let the content without that line
  (the first line equal to the divider up to surrounding white space) be non-empty. Then
  \<open>generateSectionHash S\<close> is the hash of that remaining content, and so is the section hash
  of the section that holds only the remaining content and carries no divider. When the
  divider is the first line of the content, as in every section that \<open>splitContent\<close>
  builds, the remaining content is the content after the first line.
\<close>

theorem generateSectionHash_excludes_divider:
  assumes "hasDivider S" and "originalDividerLine S = Some d" and "d \<noteq> []"
    and "d \<in> set (split_nl (content S))"
    and "without_divider_line d (content S) \<noteq> []"
  shows "generateSectionHash dg len S
           = generateSectionHash dg len
               (S\<lparr> content := without_divider_line d (content S),
                   hasDivider := False, originalDividerLine := None \<rparr>)
    \<and> generateSectionHash dg len S = Inr (generateHash dg len (without_divider_line d (content S)))
    \<and> (hd (split_nl (content S)) = d \<longrightarrow>
          without_divider_line d (content S) = join_nl (tl (split_nl (content S))))"
proof -
  have ne: "content S \<noteq> []"
  proof
    assume "content S = []"
    with assms(4) have "d = []" by simp
    with assms(3) show False by simp
  qed
  have lhs: "generateSectionHash dg len S = Inr (generateHash dg len (without_divider_line d (content S)))"
    using ne contentToHash_divider[OF assms(1-4)] by (simp add: generateSectionHash_def)
  have rhs: "generateSectionHash dg len
               (S\<lparr> content := without_divider_line d (content S),
                   hasDivider := False, originalDividerLine := None \<rparr>)
             = Inr (generateHash dg len (without_divider_line d (content S)))"
    using assms(5) by (simp add: generateSectionHash_def contentToHash_def)
  have first: "hd (split_nl (content S)) = d \<longrightarrow>
          without_divider_line d (content S) = join_nl (tl (split_nl (content S)))"
    using split_nl_nonempty[of "content S"]
    by (cases "split_nl (content S)") (auto simp: without_divider_line_def)
  from lhs rhs first show ?thesis by simp
qed

theorem generateSectionHash_excludes_divider_witness:
  "generateSectionHash example_digest 8
      \<lparr> index = 1, content = ''---:\<newline>\<newline>B'', hasDivider = True,
        originalDividerLine = Some ''---:'', lineStart = 3, lineEnd = 5 \<rparr>
    = generateSectionHash example_digest 8
      \<lparr> index = 1, content = ''\<newline>B'', hasDivider = False,
        originalDividerLine = None, lineStart = 3, lineEnd = 5 \<rparr>
   \<and> generateSectionHash example_digest 8
      \<lparr> index = 1, content = ''---:\<newline>\<newline>B'', hasDivider = True,
        originalDividerLine = Some ''---:'', lineStart = 3, lineEnd = 5 \<rparr> = Inr ''42000000''"
proof -
  let ?S = "\<lparr> index = 1, content = ''---:\<newline>\<newline>B'', hasDivider = True,
        originalDividerLine = Some ''---:'', lineStart = 3, lineEnd = 5 \<rparr>"
  have h1: "hasDivider ?S" and h2: "originalDividerLine ?S = Some ''---:''" and h3: "''---:'' \<noteq> []"
    by simp_all
  have h4: "''---:'' \<in> set (split_nl (content ?S))" by code_simp
  have w: "without_divider_line ''---:'' (content ?S) = ''\<newline>B''" by code_simp
  have h5: "without_divider_line ''---:'' (content ?S) \<noteq> []" unfolding w by simp
  have g: "generateHash example_digest 8 ''\<newline>B'' = ''42000000''" by code_simp
  have u: "?S\<lparr> content := ''\<newline>B'', hasDivider := False, originalDividerLine := None \<rparr>
     = \<lparr> index = 1, content = ''\<newline>B'', hasDivider = False,
        originalDividerLine = None, lineStart = 3, lineEnd = 5 \<rparr>" by simp
  note t = generateSectionHash_excludes_divider [OF h1 h2 h3 h4 h5, of example_digest 8]
  from t have a: "generateSectionHash example_digest 8 ?S
     = generateSectionHash example_digest 8
         (?S\<lparr> content := ''\<newline>B'', hasDivider := False, originalDividerLine := None \<rparr>)"
    unfolding w by (rule conjunct1)
  from t have b: "generateSectionHash example_digest 8 ?S = Inr ''42000000''"
    unfolding w g by blast
  from a b show ?thesis unfolding u by (rule conjI)
qed

text \<open>
  Claim C4 as stated fails where the divider is the whole content: the last section of
  \<open>"A\n---:"\<close> is the divider line alone. Its section hash is the hash of the empty text,
  while the section holding the remaining (empty) content has no hash:
  \<open>generateSectionHash\<close> throws on empty content.
\<close>

theorem generateSectionHash_divider_only_counterexample:
  "splitContent ''A\<newline>---:'' ! 1
     = \<lparr> index = 1, content = ''---:'', hasDivider = True,
         originalDividerLine = Some ''---:'', lineStart = 2, lineEnd = 2 \<rparr>
   \<and> ''---:'' \<in> set (split_nl ''---:'')
   \<and> generateSectionHash example_digest 8
        \<lparr> index = 1, content = ''---:'', hasDivider = True,
          originalDividerLine = Some ''---:'', lineStart = 2, lineEnd = 2 \<rparr> = Inr ''00000000''
   \<and> generateSectionHash example_digest 8
        \<lparr> index = 1, content = without_divider_line ''---:'' ''---:'', hasDivider = False,
          originalDividerLine = None, lineStart = 2, lineEnd = 2 \<rparr> = Inl MissingContent
   \<and> generateSectionHash example_digest 8
        \<lparr> index = 1, content = ''---:'', hasDivider = True,
          originalDividerLine = Some ''---:'', lineStart = 2, lineEnd = 2 \<rparr>
     \<noteq> generateSectionHash example_digest 8
        \<lparr> index = 1, content = without_divider_line ''---:'' ''---:'', hasDivider = False,
          originalDividerLine = None, lineStart = 2, lineEnd = 2 \<rparr>"
  by code_simp

section \<open>Facts about the matcher\<close>

lemma matches_Star_iff:
  "matches (Star k # r) s \<longleftrightarrow>
     (\<exists>a b. s = a @ b \<and> (\<forall>c \<in> set a. in_class k c) \<and> matches r b)"
proof (induction s)
  case Nil
  show ?case by auto
next
  case (Cons c cs)
  show ?case
  proof
    assume "matches (Star k # r) (c # cs)"
    then consider "in_class k c" "matches (Star k # r) cs" | "matches r (c # cs)" by auto
    then show "\<exists>a b. c # cs = a @ b \<and> (\<forall>c \<in> set a. in_class k c) \<and> matches r b"
    proof cases
      case 1
      with Cons obtain a b where "cs = a @ b" "\<forall>c \<in> set a. in_class k c" "matches r b" by blast
      with 1 have "c # cs = (c # a) @ b \<and> (\<forall>x \<in> set (c # a). in_class k x) \<and> matches r b" by simp
      then show ?thesis by blast
    next
      case 2
      then have "c # cs = [] @ (c # cs) \<and> (\<forall>x \<in> set []. in_class k x) \<and> matches r (c # cs)" by simp
      then show ?thesis by blast
    qed
  next
    assume "\<exists>a b. c # cs = a @ b \<and> (\<forall>c \<in> set a. in_class k c) \<and> matches r b"
    then obtain a b where ab: "c # cs = a @ b" "\<forall>c \<in> set a. in_class k c" "matches r b" by blast
    show "matches (Star k # r) (c # cs)"
    proof (cases a)
      case Nil
      with ab have "matches r (c # cs)" by simp
      then show ?thesis by simp
    next
      case (Cons x xs)
      with ab have "cs = xs @ b" "in_class k c" "\<forall>c \<in> set xs. in_class k c" by auto
      with ab(3) Cons.IH show ?thesis by auto
    qed
  qed
qed

lemma matches_Plus_iff:
  "matches (Plus k # r) s \<longleftrightarrow>
     (\<exists>a b. s = a @ b \<and> a \<noteq> [] \<and> (\<forall>c \<in> set a. in_class k c) \<and> matches r b)"
proof (cases s)
  case Nil
  then show ?thesis by simp
next
  case (Cons c cs)
  show ?thesis
  proof
    assume "matches (Plus k # r) s"
    with Cons have "in_class k c" "matches (Star k # r) cs" by auto
    then obtain a b where "cs = a @ b" "\<forall>c \<in> set a. in_class k c" "matches r b"
      using matches_Star_iff by blast
    with Cons \<open>in_class k c\<close>
    have "s = (c # a) @ b \<and> c # a \<noteq> [] \<and> (\<forall>x \<in> set (c # a). in_class k x) \<and> matches r b" by simp
    then show "\<exists>a b. s = a @ b \<and> a \<noteq> [] \<and> (\<forall>c \<in> set a. in_class k c) \<and> matches r b" by blast
  next
    assume "\<exists>a b. s = a @ b \<and> a \<noteq> [] \<and> (\<forall>c \<in> set a. in_class k c) \<and> matches r b"
    then obtain a b where ab: "s = a @ b" "a \<noteq> []" "\<forall>c \<in> set a. in_class k c" "matches r b" by blast
    then obtain x xs where a: "a = x # xs" by (cases a) auto
    with ab Cons have "c = x" "cs = xs @ b" "in_class k c" "\<forall>c \<in> set xs. in_class k c" by auto
    with ab(4) have "matches (Star k # r) cs" using matches_Star_iff by blast
    with Cons \<open>in_class k c\<close> show "matches (Plus k # r) s" by simp
  qed
qed

lemma matches_lits_iff: "matches (lits p @ r) s \<longleftrightarrow> (\<exists>b. s = p @ b \<and> matches r b)"
proof (induction p arbitrary: s)
  case Nil
  show ?case by (simp add: lits_def)
next
  case (Cons x p)
  have l: "lits (x # p) @ r = One (Lit x) # (lits p @ r)" by (simp add: lits_def)
  show ?case unfolding l using Cons.IH by (cases s) auto
qed

lemma hex_not_space: "is_hex c \<Longrightarrow> \<not> is_space c"
  by (auto simp: is_hex_def is_space_def)

lemma takeWhile_run:
  "\<forall>c \<in> set a. P c \<Longrightarrow> b = [] \<or> \<not> P (hd b) \<Longrightarrow> takeWhile P (a @ b) = a"
  by (cases b) (auto simp: takeWhile_append2 takeWhile_eq_all_conv)

lemma dropWhile_run:
  "\<forall>c \<in> set a. P c \<Longrightarrow> b = [] \<or> \<not> P (hd b) \<Longrightarrow> dropWhile P (a @ b) = b"
  by (cases b) (auto simp: dropWhile_append2)

text \<open>The shape of a line that matches \<open>^---:\s+[A-F0-9]+\<close> followed by the items \<open>r\<close>.\<close>

lemma hash_divider_shape:
  "matches (hash_divider_rx @ r) line \<longleftrightarrow>
     (\<exists>w h b. line = ''---:'' @ w @ h @ b \<and> w \<noteq> [] \<and> (\<forall>c \<in> set w. is_space c)
        \<and> h \<noteq> [] \<and> (\<forall>c \<in> set h. is_hex c) \<and> matches r b)"
proof -
  have "matches (hash_divider_rx @ r) line \<longleftrightarrow> (\<exists>b0. line = ''---:'' @ b0 \<and> matches (Plus Space # Plus Hex # r) b0)"
    using matches_lits_iff[of "''---:''" "Plus Space # Plus Hex # r" line]
    by (simp add: hash_divider_rx_def)
  also have "\<dots> \<longleftrightarrow> (\<exists>w b1. line = ''---:'' @ w @ b1 \<and> w \<noteq> [] \<and> (\<forall>c \<in> set w. is_space c)
        \<and> matches (Plus Hex # r) b1)"
    by (auto simp: matches_Plus_iff[of Space])
  also have "\<dots> \<longleftrightarrow> (\<exists>w h b. line = ''---:'' @ w @ h @ b \<and> w \<noteq> [] \<and> (\<forall>c \<in> set w. is_space c)
        \<and> h \<noteq> [] \<and> (\<forall>c \<in> set h. is_hex c) \<and> matches r b)"
    by (auto simp: matches_Plus_iff[of Hex])
  finally show ?thesis .
qed

section \<open>Extracting references\<close>

lemma spec_references_Cons:
  "spec_references n (line # rest) =
     (case referencePattern line of
        None \<Rightarrow> spec_references (Suc n) rest
      | Some m \<Rightarrow> \<lparr> hash = toUpperCase m, originalLine = line, lineNumber = n + 1 \<rparr>
                    # spec_references (Suc n) rest)"
  by (simp add: spec_references_def List.map_filter_simps split: option.splits)

lemma spec_references_Nil: "spec_references n [] = []"
  by (simp add: spec_references_def List.map_filter_simps)

lemma scan_references_fst:
  "fst (scan_references i ls (refs, st)) = refs @ spec_references i ls"
  by (induction ls arbitrary: i refs st)
     (auto simp: spec_references_Cons spec_references_Nil split: option.splits)

lemma scan_references_snd:
  "snd (scan_references i ls (refs, st)) =
     (if st = - 1
      then (case findIndex (\<lambda>l. referencePattern l \<noteq> None) ls of
              None \<Rightarrow> - 1 | Some j \<Rightarrow> int (i + j))
      else st)"
proof (induction ls arbitrary: i refs st)
  case Nil
  then show ?case by simp
next
  case (Cons l ls)
  show ?case
  proof (cases "referencePattern l")
    case None
    with Cons show ?thesis by (auto split: option.splits)
  next
    case (Some m)
    with Cons show ?thesis by auto
  qed
qed

lemma findIndex_Some_before:
  "findIndex p xs = Some j \<Longrightarrow> j < length xs \<and> (\<forall>x \<in> set (take j xs). \<not> p x)"
  by (induction xs arbitrary: j) (auto split: option.splits if_splits)

lemma skip_blank_back_le: "skip_blank_back ls a \<le> a"
  by (induction a) auto

lemma spec_references_above: "r \<in> set (spec_references n ls) \<Longrightarrow> n < lineNumber r"
proof (induction ls arbitrary: n)
  case Nil
  then show ?case by (simp add: spec_references_Nil)
next
  case (Cons l ls)
  then show ?case
    by (fastforce simp: spec_references_Cons split: option.splits)
qed

lemma spec_references_increasing: "sorted_wrt (<) (map lineNumber (spec_references n ls))"
proof (induction ls arbitrary: n)
  case Nil
  show ?case by (simp add: spec_references_Nil)
next
  case (Cons l ls)
  show ?case
  proof (cases "referencePattern l")
    case None
    with Cons show ?thesis by (simp add: spec_references_Cons)
  next
    case (Some m)
    have "\<forall>r \<in> set (spec_references (Suc n) ls). n + 1 < lineNumber r"
      using spec_references_above by fastforce
    with Some Cons show ?thesis by (simp add: spec_references_Cons)
  qed
qed

lemma references_extractReferences:
  "references (extractReferences doc) = spec_references 0 (split_nl doc)"
proof -
  obtain refs st where sc: "scan_references 0 (split_nl doc) ([], - 1) = (refs, st)"
    by (cases "scan_references 0 (split_nl doc) ([], - 1)")
  have r: "refs = spec_references 0 (split_nl doc)"
    using scan_references_fst[of 0 "split_nl doc" "[]" "- 1"] sc by simp
  have s: "st = (case findIndex (\<lambda>l. referencePattern l \<noteq> None) (split_nl doc) of
              None \<Rightarrow> - 1 | Some j \<Rightarrow> int j)"
    using scan_references_snd[of 0 "split_nl doc" "[]" "- 1"] sc by (simp split: option.splits)
  show ?thesis
  proof (cases "findIndex (\<lambda>l. referencePattern l \<noteq> None) (split_nl doc)")
    case None
    then have "\<forall>l \<in> set (split_nl doc). referencePattern l = None"
      by (simp add: findIndex_None)
    then have "spec_references 0 (split_nl doc) = []"
      by (auto simp: spec_references_def List.map_filter_def filter_empty_conv in_set_enumerate_eq)
    with None s sc show ?thesis by (simp add: extractReferences_def)
  next
    case (Some j)
    with s sc r show ?thesis by (simp add: extractReferences_def Let_def)
  qed
qed

text \<open>
  Claim C6: the anchor \<open>"Intro\n\n---: ABCD1234\n---: EFAB5678"\<close> yields the references
  ABCD1234 (line 3) and EFAB5678 (line 4) and the base content \<open>"Intro"\<close>; and for every
  content the references are exactly the lines that match the reference-divider pattern,
  each with its hash in upper case and its 1-based line number, in order of appearance.
\<close>

theorem extractReferences_collects:
  "extractReferences ''Intro\<newline>\<newline>---: ABCD1234\<newline>---: EFAB5678''
     = \<lparr> baseContent = ''Intro'',
         references = [\<lparr> hash = ''ABCD1234'', originalLine = ''---: ABCD1234'', lineNumber = 3 \<rparr>,
                       \<lparr> hash = ''EFAB5678'', originalLine = ''---: EFAB5678'', lineNumber = 4 \<rparr>] \<rparr>
   \<and> references (extractReferences doc) = spec_references 0 (split_nl doc)"
proof -
  have "extractReferences ''Intro\<newline>\<newline>---: ABCD1234\<newline>---: EFAB5678''
     = \<lparr> baseContent = ''Intro'',
         references = [\<lparr> hash = ''ABCD1234'', originalLine = ''---: ABCD1234'', lineNumber = 3 \<rparr>,
                       \<lparr> hash = ''EFAB5678'', originalLine = ''---: EFAB5678'', lineNumber = 4 \<rparr>] \<rparr>"
    by code_simp
  then show ?thesis using references_extractReferences by simp
qed

theorem extractReferences_collects_witness:
  "references (extractReferences ''a\<newline>---: abcd12 12:34:56 2024/01/02\<newline>b\<newline>---: 0f'')
     = [\<lparr> hash = ''ABCD12'', originalLine = ''---: abcd12 12:34:56 2024/01/02'', lineNumber = 2 \<rparr>,
        \<lparr> hash = ''0F'', originalLine = ''---: 0f'', lineNumber = 4 \<rparr>]"
proof -
  have "spec_references 0 (split_nl ''a\<newline>---: abcd12 12:34:56 2024/01/02\<newline>b\<newline>---: 0f'')
     = [\<lparr> hash = ''ABCD12'', originalLine = ''---: abcd12 12:34:56 2024/01/02'', lineNumber = 2 \<rparr>,
        \<lparr> hash = ''0F'', originalLine = ''---: 0f'', lineNumber = 4 \<rparr>]"
    by code_simp
  with extractReferences_collects [of "''a\<newline>---: abcd12 12:34:56 2024/01/02\<newline>b\<newline>---: 0f''"]
  show ?thesis by simp
qed

lemma trim_append_spaces:
  assumes "\<forall>c \<in> set ws. is_space c"
  shows "trim (s @ ws) = trim s"
proof (cases "\<forall>c \<in> set s. is_space c")
  case True
  have a: "dropWhile is_space (s @ ws) = []"
    using True assms by (simp add: dropWhile_eq_Nil_conv Ball_def)
  have b: "dropWhile is_space s = []"
    using True by (simp add: dropWhile_eq_Nil_conv)
  show ?thesis unfolding trim_def a b by simp
next
  case False
  then obtain x where "x \<in> set s" "\<not> is_space x" by blast
  then have "dropWhile is_space (s @ ws) = dropWhile is_space s @ ws"
    by (rule dropWhile_append1)
  moreover have "dropWhile is_space (rev ws @ rev (dropWhile is_space s))
                   = dropWhile is_space (rev (dropWhile is_space s))"
    by (rule dropWhile_append2) (use assms in auto)
  ultimately show ?thesis by (simp add: trim_def)
qed

lemma trim_empty_spaces: "trim b = [] \<Longrightarrow> \<forall>c \<in> set b. is_space c"
proof -
  assume "trim b = []"
  then have "dropWhile is_space (rev (dropWhile is_space b)) = []" by (simp add: trim_def)
  then have "\<forall>c \<in> set (rev (dropWhile is_space b)). is_space c"
    by (simp add: dropWhile_eq_Nil_conv)
  then have "dropWhile is_space b = []"
    by (metis dropWhile_eq_Nil_conv hd_dropWhile list.set_sel(1) set_rev)
  then show ?thesis by (simp add: dropWhile_eq_Nil_conv)
qed

lemma dropWhile_id: "xs = [] \<or> \<not> P (hd xs) \<Longrightarrow> dropWhile P xs = xs"
  by (cases xs) auto

lemma trim_idem: "trim (trim s) = trim s"
proof -
  define u where "u = dropWhile is_space s"
  define v where "v = dropWhile is_space (rev u)"
  have t: "trim s = rev v" by (simp add: trim_def u_def v_def)
  have v_hd: "v = [] \<or> \<not> is_space (hd v)" unfolding v_def by (metis hd_dropWhile)
  have u_hd: "u = [] \<or> \<not> is_space (hd u)" unfolding u_def by (metis hd_dropWhile)
  have "rev u = takeWhile is_space (rev u) @ v" unfolding v_def by simp
  then have uv: "u = rev v @ rev (takeWhile is_space (rev u))"
    by (metis rev_append rev_rev_ident)
  have rv_hd: "rev v = [] \<or> \<not> is_space (hd (rev v))"
  proof (cases "v = []")
    case True
    then show ?thesis by simp
  next
    case False
    then have "hd u = hd (rev v)" using uv by (metis hd_append2 rev_is_Nil_conv)
    moreover have "u \<noteq> []" using False uv by (metis append_is_Nil_conv rev_is_Nil_conv)
    ultimately show ?thesis using u_hd by simp
  qed
  have d1: "dropWhile is_space (rev v) = rev v" using rv_hd by (rule dropWhile_id)
  have d2: "dropWhile is_space v = v" using v_hd by (rule dropWhile_id)
  have "trim (rev v) = rev v" unfolding trim_def d1 rev_rev_ident d2 ..
  then show ?thesis unfolding t .
qed

lemma split_nl_append:
  "split_nl (x @ NL # y) = split_nl x @ split_nl y"
proof (induction x)
  case Nil
  show ?case by simp
next
  case (Cons c x)
  obtain l ls where sp: "split_nl x = l # ls"
    using split_nl_nonempty by (cases "split_nl x") auto
  with Cons show ?case by simp
qed

lemma skip_blank_back_trim:
  "n \<le> length ls \<Longrightarrow>
   trim (join_nl (take (skip_blank_back ls n) ls)) = trim (join_nl (take n ls))"
proof (induction n)
  case 0
  show ?case by simp
next
  case (Suc a)
  show ?case
  proof (cases "trim (ls ! a) = []")
    case False
    then show ?thesis by simp
  next
    case True
    then have sp: "\<forall>c \<in> set (ls ! a). is_space c" by (rule trim_empty_spaces)
    have tk: "take (Suc a) ls = take a ls @ [ls ! a]"
      using Suc.prems by (simp add: take_Suc_conv_app_nth)
    have "trim (join_nl (take (Suc a) ls)) = trim (join_nl (take a ls))"
    proof (cases "take a ls = []")
      case e: True
      have "trim ([] @ ls ! a) = trim []" using sp by (rule trim_append_spaces)
      then show ?thesis unfolding tk e using True by simp
    next
      case ne: False
      have "join_nl (take a ls @ [ls ! a]) = join_nl (take a ls) @ (NL # ls ! a)"
        using ne by (simp add: join_nl_append)
      moreover have "\<forall>c \<in> set (NL # ls ! a). is_space c"
        using sp by (simp add: is_space_def NL_def)
      ultimately show ?thesis unfolding tk by (simp add: trim_append_spaces)
    qed
    with True Suc show ?thesis by simp
  qed
qed

lemma extractReferences_found:
  assumes "findIndex (\<lambda>l. referencePattern l \<noteq> None) (split_nl doc) = Some j"
  shows "extractReferences doc
           = \<lparr> baseContent = trim (join_nl (take j (split_nl doc))),
               references = spec_references 0 (split_nl doc) \<rparr>"
proof -
  let ?ls = "split_nl doc"
  obtain refs st where sc: "scan_references 0 ?ls ([], - 1) = (refs, st)"
    by (cases "scan_references 0 ?ls ([], - 1)")
  have r: "refs = spec_references 0 ?ls"
    using scan_references_fst[of 0 ?ls "[]" "- 1"] sc by simp
  have s: "st = int j"
    using scan_references_snd[of 0 ?ls "[]" "- 1"] sc assms by simp
  have "j < length ?ls" using findIndex_Some_before[OF assms] by simp
  then have "trim (join_nl (take (skip_blank_back ?ls j) ?ls)) = trim (join_nl (take j ?ls))"
    by (intro skip_blank_back_trim) simp
  with sc r s show ?thesis by (simp add: extractReferences_def Let_def)
qed

lemma extractReferences_none:
  assumes "\<forall>l \<in> set (split_nl doc). referencePattern l = None"
  shows "extractReferences doc = \<lparr> baseContent = trim doc, references = [] \<rparr>"
proof -
  let ?ls = "split_nl doc"
  obtain refs st where sc: "scan_references 0 ?ls ([], - 1) = (refs, st)"
    by (cases "scan_references 0 ?ls ([], - 1)")
  have "findIndex (\<lambda>l. referencePattern l \<noteq> None) ?ls = None"
    using assms by (simp add: findIndex_None)
  then have "st = - 1" using scan_references_snd[of 0 ?ls "[]" "- 1"] sc by simp
  with sc show ?thesis by (simp add: extractReferences_def)
qed

lemma findIndex_append:
  "\<forall>x \<in> set xs. \<not> p x \<Longrightarrow> p y \<Longrightarrow> findIndex p (xs @ y # ys) = Some (length xs)"
  by (induction xs) auto

lemma spec_references_append:
  "spec_references n (xs @ ys) = spec_references n xs @ spec_references (n + length xs) ys"
  by (induction xs arbitrary: n) (auto simp: spec_references_Cons spec_references_Nil split: option.splits)

lemma spec_references_none:
  "\<forall>l \<in> set xs. referencePattern l = None \<Longrightarrow> spec_references n xs = []"
  by (induction xs arbitrary: n) (auto simp: spec_references_Cons spec_references_Nil)

lemma findIndex_takeWhile:
  "takeWhile (\<lambda>x. \<not> p x) xs = take (case findIndex p xs of None \<Rightarrow> length xs | Some j \<Rightarrow> j) xs"
  by (induction xs) (auto split: option.splits)

lemma findIndex_Some_at: "findIndex p xs = Some j \<Longrightarrow> p (xs ! j)"
  by (induction xs arbitrary: j) (auto split: option.splits if_splits)

text \<open>
  Claim C10, amended: for every content the references have strictly increasing line
  numbers, and the base content is the trimmed join of the lines that precede the first
  line matching the reference-divider pattern (all lines when there is no reference);
  none of these lines matches the pattern. There is no reference exactly when that
  prefix is all of the content, and otherwise the first reference is the line right
  after it. The blank lines that end the prefix, which the code leaves out before it
  joins, fall to the trim.
\<close>

theorem extractReferences_increasing_prefix:
  "sorted_wrt (<) (map lineNumber (references (extractReferences doc)))
   \<and> baseContent (extractReferences doc)
       = trim (join_nl (takeWhile (\<lambda>l. referencePattern l = None) (split_nl doc)))
   \<and> list_all (\<lambda>l. referencePattern l = None)
       (takeWhile (\<lambda>l. referencePattern l = None) (split_nl doc))
   \<and> (references (extractReferences doc) = []
        \<longleftrightarrow> takeWhile (\<lambda>l. referencePattern l = None) (split_nl doc) = split_nl doc)
   \<and> (references (extractReferences doc) \<noteq> [] \<longrightarrow>
        lineNumber (hd (references (extractReferences doc)))
          = Suc (length (takeWhile (\<lambda>l. referencePattern l = None) (split_nl doc))))"
proof -
  let ?ls = "split_nl doc"
  let ?p = "\<lambda>l. referencePattern l \<noteq> None"
  let ?pre = "takeWhile (\<lambda>l. referencePattern l = None) ?ls"
  have tw: "?pre = take (case findIndex ?p ?ls of None \<Rightarrow> length ?ls | Some j \<Rightarrow> j) ?ls"
    using findIndex_takeWhile [of ?p ?ls] by simp
  have inc: "sorted_wrt (<) (map lineNumber (references (extractReferences doc)))"
    by (simp add: references_extractReferences spec_references_increasing)
  have al: "list_all (\<lambda>l. referencePattern l = None) ?pre"
    by (auto simp: list_all_iff dest: set_takeWhileD)
  have rest: "baseContent (extractReferences doc) = trim (join_nl ?pre)
     \<and> (references (extractReferences doc) = [] \<longleftrightarrow> ?pre = ?ls)
     \<and> (references (extractReferences doc) \<noteq> [] \<longrightarrow>
          lineNumber (hd (references (extractReferences doc))) = Suc (length ?pre))"
  proof (cases "findIndex ?p ?ls")
    case None
    then have no: "\<forall>l \<in> set ?ls. referencePattern l = None" by (simp add: findIndex_None)
    from None tw have pre: "?pre = ?ls" by simp
    from extractReferences_none [OF no] show ?thesis unfolding pre by (simp add: join_split_nl)
  next
    case (Some j)
    from Some tw have pre: "?pre = take j ?ls" by simp
    from findIndex_Some_before [OF Some]
    have j: "j < length ?ls"
      and bj: "\<forall>x \<in> set (take j ?ls). referencePattern x = None" by simp_all
    from findIndex_Some_at [OF Some] have pj: "referencePattern (?ls ! j) \<noteq> None" .
    from pj obtain m where m: "referencePattern (?ls ! j) = Some m" by blast
    have dec: "?ls = take j ?ls @ (?ls ! j) # drop (Suc j) ?ls"
      using j by (simp add: id_take_nth_drop [symmetric])
    have "spec_references 0 ?ls
            = spec_references 0 (take j ?ls) @ spec_references (0 + length (take j ?ls)) ((?ls ! j) # drop (Suc j) ?ls)"
      using spec_references_append [of 0 "take j ?ls" "(?ls ! j) # drop (Suc j) ?ls"] dec by simp
    also have "spec_references 0 (take j ?ls) = []" using bj by (rule spec_references_none)
    finally have sr: "spec_references 0 ?ls
        = \<lparr> hash = toUpperCase m, originalLine = ?ls ! j, lineNumber = Suc j \<rparr>
            # spec_references (Suc j) (drop (Suc j) ?ls)"
      using j m by (simp add: spec_references_Cons min_def)
    have ne: "take j ?ls \<noteq> ?ls" using j by (metis length_take min.absorb2 less_imp_le nat_neq_iff)
    have len: "length (take j ?ls) = j" using j by simp
    from extractReferences_found [OF Some] sr ne show ?thesis unfolding pre len by simp
  qed
  from inc rest al show ?thesis by blast
qed

theorem extractReferences_increasing_prefix_witness:
  "sorted_wrt (<) (map lineNumber (references (extractReferences ''a \<newline>\<newline>---: AB\<newline>x\<newline>---: CD'')))
   \<and> map lineNumber (references (extractReferences ''a \<newline>\<newline>---: AB\<newline>x\<newline>---: CD'')) = [3, 5]
   \<and> takeWhile (\<lambda>l. referencePattern l = None) (split_nl ''a \<newline>\<newline>---: AB\<newline>x\<newline>---: CD'') = [''a '', '''']
   \<and> baseContent (extractReferences ''a \<newline>\<newline>---: AB\<newline>x\<newline>---: CD'') = ''a''
   \<and> trim (join_nl [''a '', '''']) = ''a''"
proof -
  define d where "d = ''a \<newline>\<newline>---: AB\<newline>x\<newline>---: CD''"
  have ln: "map lineNumber (references (extractReferences d)) = [3, 5]"
    unfolding d_def by code_simp
  have pre: "takeWhile (\<lambda>l. referencePattern l = None) (split_nl d) = [''a '', '''']"
    unfolding d_def by code_simp
  have tr: "trim (join_nl [''a '', '''']) = ''a''" by code_simp
  note t = extractReferences_increasing_prefix [of d]
  from t have s: "sorted_wrt (<) (map lineNumber (references (extractReferences d)))"
    by (rule conjunct1)
  from t have "baseContent (extractReferences d)
       = trim (join_nl (takeWhile (\<lambda>l. referencePattern l = None) (split_nl d)))"
    by (elim conjE)
  then have b: "baseContent (extractReferences d) = ''a''" unfolding pre tr .
  from s ln pre b tr show ?thesis unfolding d_def by (intro conjI)
qed

text \<open>
  Claim C10 as stated fails: the base content is trimmed, and trimming can turn a line
  that does not match (here for its leading blank) into one that does.
\<close>

theorem extractReferences_base_counterexample:
  "extractReferences [CHR 0x20, CHR ''-'', CHR ''-'', CHR ''-'', CHR '':'', CHR 0x20, CHR ''A'', CHR ''B'']
     = \<lparr> baseContent = ''---: AB'', references = [] \<rparr>
   \<and> split_nl ''---: AB'' = [''---: AB'']
   \<and> referencePattern ''---: AB'' = Some ''AB''
   \<and> \<not> list_all (\<lambda>l. referencePattern l = None)
         (split_nl (baseContent (extractReferences
            [CHR 0x20, CHR ''-'', CHR ''-'', CHR ''-'', CHR '':'', CHR 0x20, CHR ''A'', CHR ''B''])))"
  by code_simp

section \<open>Restoring the bare divider\<close>

lemma split_nl_no_NL: "l \<in> set (split_nl s) \<Longrightarrow> NL \<notin> set l"
proof (induction s arbitrary: l)
  case Nil
  then show ?case by simp
next
  case (Cons c cs)
  obtain x xs where sp: "split_nl cs = x # xs"
    using split_nl_nonempty by (cases "split_nl cs") auto
  with Cons show ?case by (auto split: if_splits)
qed

lemma split_nl_no_newline: "NL \<notin> set s \<Longrightarrow> split_nl s = [s]"
  by (induction s) auto

lemma split_nl_append_NL:
  "NL \<notin> set x \<Longrightarrow> split_nl (x @ NL # s) = x # split_nl s"
proof (induction x)
  case Nil
  show ?case by simp
next
  case (Cons c x)
  then show ?case by auto
qed

lemma split_join_nl:
  "xs \<noteq> [] \<Longrightarrow> \<forall>l \<in> set xs. NL \<notin> set l \<Longrightarrow> split_nl (join_nl xs) = xs"
proof (induction xs)
  case Nil
  then show ?case by simp
next
  case (Cons x xs)
  show ?case
  proof (cases "xs = []")
    case True
    with Cons.prems show ?thesis by (simp add: split_nl_no_newline)
  next
    case False
    with Cons show ?thesis by (simp add: join_nl_Cons split_nl_append_NL)
  qed
qed

lemma hash_divider_not_enhanced:
  assumes "matches hash_divider_rx line"
  shows "\<not> enhancedDividerPattern line"
proof
  assume "enhancedDividerPattern line"
  then have "matches (hash_divider_rx @ (Plus Space # timestamp_rx)) line"
    by (simp add: enhancedDividerPattern_def)
  then obtain w' h' b' where e: "line = ''---:'' @ w' @ h' @ b'" "w' \<noteq> []"
      "\<forall>c \<in> set w'. is_space c" "h' \<noteq> []" "\<forall>c \<in> set h'. is_hex c"
      "matches (Plus Space # timestamp_rx) b'"
    using hash_divider_shape[of "Plus Space # timestamp_rx" line] by blast
  from e(6) obtain a b'' where a: "b' = a @ b''" "a \<noteq> []" "\<forall>c \<in> set a. is_space c"
    using matches_Plus_iff[of Space timestamp_rx b'] by auto
  from assms have "matches (hash_divider_rx @ []) line" by simp
  then obtain w h where p: "line = ''---:'' @ w @ h" "w \<noteq> []" "\<forall>c \<in> set w. is_space c"
      "h \<noteq> []" "\<forall>c \<in> set h. is_hex c"
    using hash_divider_shape[of "[]" line] by auto
  have eq: "w @ h = w' @ (h' @ b')" using e(1) p(1) by simp
  have "\<not> is_space (hd h)" using p(4,5) hex_not_space by simp
  then have t1: "takeWhile is_space (w @ h) = w" using p(3) by (intro takeWhile_run) auto
  have "\<not> is_space (hd (h' @ b'))" using e(4,5) hex_not_space by simp
  then have t2: "takeWhile is_space (w' @ (h' @ b')) = w'" using e(3) by (intro takeWhile_run) auto
  from t1 t2 eq have "w = w'" by simp
  with eq have "h = h' @ a @ b''" using a(1) by simp
  then have "hd a \<in> set h" using a(2) by (cases a) auto
  then have "is_hex (hd a)" using p(5) by blast
  moreover have "is_space (hd a)" using a(2,3) by (cases a) auto
  ultimately show False using hex_not_space by blast
qed

lemma bare_divider_no_NL: "NL \<notin> set ''---:''"
  by (simp add: NL_def)

lemma cleanReferencedContent_unchanged:
  "\<not> enhancedDividerPattern (hd (split_nl doc)) \<Longrightarrow> cleanReferencedContent doc = doc"
proof -
  assume n: "\<not> enhancedDividerPattern (hd (split_nl doc))"
  obtain l ls where sp: "split_nl doc = l # ls"
    using split_nl_nonempty by (cases "split_nl doc") auto
  have "join_nl (l # ls) = doc" using join_split_nl[of doc] sp by simp
  with n sp show ?thesis by (simp add: cleanReferencedContent_def)
qed

text \<open>
  Claim C9: \<open>cleanReferencedContent\<close> replaces the first line by the bare divider
  \<open>---:\<close> exactly when that line matches the enhanced-divider pattern (hash and
  timestamp, letters in either case), and returns the lines after the first unchanged;
  otherwise the content comes back as it is, in particular when the first line is a
  divider with a hash and no timestamp.
\<close>

theorem cleanReferencedContent_first_line_only:
  "split_nl (cleanReferencedContent doc)
     = (if enhancedDividerPattern (hd (split_nl doc)) then ''---:'' else hd (split_nl doc))
       # tl (split_nl doc)
   \<and> (\<not> enhancedDividerPattern (hd (split_nl doc)) \<longrightarrow> cleanReferencedContent doc = doc)
   \<and> (matches hash_divider_rx (hd (split_nl doc)) \<longrightarrow> cleanReferencedContent doc = doc)"
proof -
  obtain l ls where sp: "split_nl doc = l # ls"
    using split_nl_nonempty by (cases "split_nl doc") auto
  have nl: "\<forall>x \<in> set (l # ls). NL \<notin> set x"
    using split_nl_no_NL[of _ doc] sp by auto
  have a: "split_nl (cleanReferencedContent doc)
     = (if enhancedDividerPattern (hd (split_nl doc)) then ''---:'' else hd (split_nl doc))
       # tl (split_nl doc)"
  proof (cases "enhancedDividerPattern l")
    case True
    have "split_nl (join_nl (''---:'' # ls)) = ''---:'' # ls"
      using nl bare_divider_no_NL by (intro split_join_nl) auto
    with True sp show ?thesis by (simp add: cleanReferencedContent_def)
  next
    case False
    with sp show ?thesis using cleanReferencedContent_unchanged[of doc] by simp
  qed
  from a cleanReferencedContent_unchanged[of doc] hash_divider_not_enhanced[of "hd (split_nl doc)"]
  show ?thesis by blast
qed

theorem cleanReferencedContent_first_line_only_witness:
  "enhancedDividerPattern ''---: ab12CD34 09:05:59 2024/01/31''
   \<and> cleanReferencedContent ''---: ab12CD34 09:05:59 2024/01/31\<newline>x\<newline>---: EE 09:05:59 2024/01/31''
       = ''---:\<newline>x\<newline>---: EE 09:05:59 2024/01/31''
   \<and> matches hash_divider_rx ''---: ab12CD34''
   \<and> cleanReferencedContent ''---: ab12CD34\<newline>x'' = ''---: ab12CD34\<newline>x''"
proof -
  have h: "matches hash_divider_rx (hd (split_nl ''---: ab12CD34\<newline>x''))" by code_simp
  from cleanReferencedContent_first_line_only [of "''---: ab12CD34\<newline>x''"] h
  have u: "cleanReferencedContent ''---: ab12CD34\<newline>x'' = ''---: ab12CD34\<newline>x''" by blast
  have e: "enhancedDividerPattern ''---: ab12CD34 09:05:59 2024/01/31''
   \<and> cleanReferencedContent ''---: ab12CD34 09:05:59 2024/01/31\<newline>x\<newline>---: EE 09:05:59 2024/01/31''
       = ''---:\<newline>x\<newline>---: EE 09:05:59 2024/01/31''
   \<and> matches hash_divider_rx ''---: ab12CD34''"
    by code_simp
  from e u show ?thesis by blast
qed

section \<open>Extracting a line range\<close>

lemma extract_loop_inside:
  "s \<le> n + 1 \<Longrightarrow> extract_loop s e n ls acc = acc @ take (nat (e - n)) ls"
proof (induction ls arbitrary: n acc)
  case Nil
  then show ?case by simp
next
  case (Cons l ls)
  show ?case
  proof (cases "n + 1 \<le> e")
    case True
    then have "nat (e - n) = Suc (nat (e - (n + 1)))" by simp
    with True Cons show ?thesis by (simp add: Let_def)
  next
    case False
    then show ?thesis by (simp add: Let_def)
  qed
qed

lemma extract_loop_before:
  "n + 1 \<le> s \<Longrightarrow> s \<le> e \<Longrightarrow>
   extract_loop s e n ls acc = acc @ take (nat (e - s + 1)) (drop (nat (s - n - 1)) ls)"
proof (induction ls arbitrary: n acc)
  case Nil
  then show ?case by simp
next
  case (Cons l ls)
  show ?case
  proof (cases "n + 1 = s")
    case True
    then have "extract_loop s e n (l # ls) acc = acc @ take (nat (e - n)) (l # ls)"
      by (intro extract_loop_inside) simp
    moreover have "nat (e - n) = nat (e - s + 1)" using True by simp
    moreover have "nat (s - n - 1) = 0" using True by simp
    ultimately show ?thesis by simp
  next
    case False
    with Cons.prems have lt: "n + 1 < s" by simp
    then have d: "nat (s - n - 1) = Suc (nat (s - (n + 1) - 1))" by simp
    have "extract_loop s e n (l # ls) acc = extract_loop s e (n + 1) ls acc"
      using lt Cons.prems by (simp add: Let_def)
    also have "\<dots> = acc @ take (nat (e - s + 1)) (drop (nat (s - (n + 1) - 1)) ls)"
      using lt Cons.prems by (intro Cons.IH) simp_all
    finally show ?thesis using d by simp
  qed
qed

lemma extractSection_lines:
  "readFile dir filePath = Some file \<Longrightarrow> 1 \<le> s \<Longrightarrow> s \<le> e \<Longrightarrow>
   extractSection dir filePath s e
     = Inr (join_nl (take (nat (e - s + 1)) (drop (nat (s - 1)) (readline_lines file))))"
  using extract_loop_before[of 0 s e "readline_lines file" "[]"]
  by (simp add: extractSection_def)

text \<open>
  Claim C7: \<open>extractSection\<close> fails with the invalid-range error when \<open>endLine < startLine\<close>
  or \<open>startLine < 1\<close>; and for a file that exists and a range with
  \<open>1 \<le> startLine \<le> endLine \<le>\<close> number of lines, it returns the lines \<open>startLine\<close> to
  \<open>endLine\<close> (both included, counted from 1) joined with a newline.
\<close>

theorem extractSection_range:
  "(fromLine < 1 \<or> toLine < fromLine \<longrightarrow>
      extractSection dir filePath fromLine toLine = Inl InvalidLineRange)
   \<and> (readFile dir filePath = Some file \<and> 1 \<le> fromLine \<and> fromLine \<le> toLine
        \<and> toLine \<le> int (length (readline_lines file)) \<longrightarrow>
      extractSection dir filePath fromLine toLine
        = Inr (join_nl (map (\<lambda>k. readline_lines file ! (nat k - 1)) [fromLine..toLine])))"
proof -
  have a: "fromLine < 1 \<or> toLine < fromLine \<longrightarrow>
      extractSection dir filePath fromLine toLine = Inl InvalidLineRange"
    by (simp add: extractSection_def)
  have b: "extractSection dir filePath fromLine toLine
        = Inr (join_nl (map (\<lambda>k. readline_lines file ! (nat k - 1)) [fromLine..toLine]))"
    if h: "readFile dir filePath = Some file" "1 \<le> fromLine" "fromLine \<le> toLine"
          "toLine \<le> int (length (readline_lines file))"
  proof -
    let ?L = "readline_lines file"
    have "take (nat (toLine - fromLine + 1)) (drop (nat (fromLine - 1)) ?L)
            = map (\<lambda>k. ?L ! (nat k - 1)) [fromLine..toLine]"
    proof (rule nth_equalityI)
      show "length (take (nat (toLine - fromLine + 1)) (drop (nat (fromLine - 1)) ?L))
              = length (map (\<lambda>k. ?L ! (nat k - 1)) [fromLine..toLine])"
        using h by simp
    next
      fix i assume "i < length (take (nat (toLine - fromLine + 1)) (drop (nat (fromLine - 1)) ?L))"
      then have i: "int i < toLine - fromLine + 1" by auto
      then have "[fromLine..toLine] ! i = fromLine + int i" by simp
      moreover have "nat (fromLine + int i) - 1 = nat (fromLine - 1) + i" using h(2) by simp
      ultimately show "take (nat (toLine - fromLine + 1)) (drop (nat (fromLine - 1)) ?L) ! i
              = map (\<lambda>k. ?L ! (nat k - 1)) [fromLine..toLine] ! i"
        using i h by simp
    qed
    with extractSection_lines[where dir = dir and filePath = filePath and s = fromLine and e = toLine] h
    show ?thesis by simp
  qed
  from a b show ?thesis by blast
qed

theorem extractSection_range_witness:
  "extractSection [''f'' \<mapsto> ''Line 1\<newline>Line 2\<newline>Line 3\<newline>---:\<newline>Line 5\<newline>Line 6''] ''f'' 5 6
     = Inr ''Line 5\<newline>Line 6''
   \<and> extractSection [''f'' \<mapsto> ''Line 1\<newline>Line 2\<newline>Line 3\<newline>---:\<newline>Line 5\<newline>Line 6''] ''f'' 3 2
     = Inl InvalidLineRange
   \<and> extractSection [''f'' \<mapsto> ''Line 1\<newline>Line 2\<newline>Line 3\<newline>---:\<newline>Line 5\<newline>Line 6''] ''f'' 0 2
     = Inl InvalidLineRange"
proof -
  let ?F = "''Line 1\<newline>Line 2\<newline>Line 3\<newline>---:\<newline>Line 5\<newline>Line 6''"
  let ?d = "[''f'' \<mapsto> ?F]"
  have f: "readFile ?d ''f'' = Some ?F" by (simp add: readFile_def)
  have n: "(6::int) \<le> int (length (readline_lines ?F))" by code_simp
  have v: "join_nl (map (\<lambda>k. readline_lines ?F ! (nat k - 1)) [5..6]) = ''Line 5\<newline>Line 6''"
    by code_simp
  from extractSection_range [of 5 6 ?d "''f''" ?F] f n
  have a: "extractSection ?d ''f'' 5 6 = Inr (join_nl (map (\<lambda>k. readline_lines ?F ! (nat k - 1)) [5..6]))"
    by simp
  from extractSection_range [of 3 2 ?d "''f''" ?F]
  have b: "extractSection ?d ''f'' 3 2 = Inl InvalidLineRange" by simp
  from extractSection_range [of 0 2 ?d "''f''" ?F]
  have c: "extractSection ?d ''f'' 0 2 = Inl InvalidLineRange" by simp
  from a b c show ?thesis unfolding v by blast
qed

section \<open>The in-memory and the streaming strategy\<close>

lemma readline_split_no_CR: "CR \<notin> set s \<Longrightarrow> readline_split s = split_nl s"
  by (induction s rule: readline_split.induct) (auto split: list.splits)

lemma last_split_nl: "last (split_nl s) = [] \<longleftrightarrow> s = [] \<or> last s = NL"
proof (induction s)
  case Nil
  show ?case by simp
next
  case (Cons c cs)
  obtain x xs where sp: "split_nl cs = x # xs"
    using split_nl_nonempty by (cases "split_nl cs") auto
  show ?case
  proof (cases "cs = []")
    case True
    then show ?thesis by simp
  next
    case False
    have one: "xs = [] \<Longrightarrow> x = cs" using join_split_nl[of cs] sp by simp
    with False Cons sp show ?thesis by (cases xs) (auto simp: split_nl_nonempty)
  qed
qed

lemma readline_lines_split_nl:
  "s \<noteq> [] \<Longrightarrow> CR \<notin> set s \<Longrightarrow> last s \<noteq> NL \<Longrightarrow> readline_lines s = split_nl s"
  using last_split_nl[of s] by (simp add: readline_lines_def readline_split_no_CR)

lemma section_body_pushed:
  assumes "cur \<noteq> []" "\<forall>l \<in> set cur. NL \<notin> set l"
  shows "section_body \<lparr> index = k, content = join_nl cur, hasDivider = d,
            originalDividerLine = dl, lineStart = a, lineEnd = b \<rparr>
          = join_nl (if d then tl cur else cur)"
  using assms by (simp add: section_body_def split_join_nl)

lemma extractSection_run:
  assumes "readFile dir filePath = Some file" "readline_lines file = L"
    and "run \<noteq> []" "length run \<le> i" "i \<le> length L"
    and "run = drop (i - length run) (take i L)"
  shows "extractSection dir filePath (int i - int (length run) + 1) (int i) = Inr (join_nl run)"
proof -
  let ?s = "int i - int (length run) + 1"
  have s1: "1 \<le> ?s" using assms(4) by simp
  have s2: "?s \<le> int i" using assms(3) by (cases run) auto
  have n1: "nat (int i - ?s + 1) = length run" by simp
  have n2: "nat (?s - 1) = i - length run" using assms(4) by simp
  have "take (length run) (drop (i - length run) L) = drop (i - length run) (take i L)"
    using assms(4) by (simp add: drop_take)
  with assms(6) have "take (nat (int i - ?s + 1)) (drop (nat (?s - 1)) L) = run"
    unfolding n1 n2 by simp
  with extractSection_lines[OF assms(1) s1 s2] assms(2)
  show ?thesis by simp
qed

lemma stream_sections_snoc:
  assumes "stream_sections dir filePath ms = Inr ss" "endLine m = Some e"
    and "extractSection dir filePath (startLine m) e = Inr t"
  shows "stream_sections dir filePath (ms @ [m])
           = Inr (ss @ [\<lparr> stream_content = t, stream_hash = meta_hash m,
                           lineRange = (startLine m, endLine m),
                           stream_hasDivider = meta_hasDivider m \<rparr>])"
  using assms
proof (induction ms arbitrary: ss)
  case Nil
  then show ?case by simp
next
  case (Cons x ms)
  then show ?case by (auto split: option.splits sum.splits)
qed

lemma sim_step_content:
  assumes sim: "sim dir filePath L st an"
    and i: "an_lineNumber an < length L" and line: "line = L ! an_lineNumber an"
    and len: "length line \<le> maxLineLength" and nl: "NL \<notin> set line"
    and nd: "\<not> dividerPattern line"
  shows "\<exists>an'. analyze_step dg len maxLineLength dir filePath an line = Inr an'
           \<and> an_lineNumber an' = Suc (an_lineNumber an)
           \<and> sim dir filePath L (split_step (an_lineNumber an) line st) an'"
proof -
  let ?i = "an_lineNumber an"
  let ?run = "run_of st"
  let ?an' = "an\<lparr> an_currentSection :=
                   (an_currentSection an)\<lparr> lineCount := lineCount (an_currentSection an) + 1 \<rparr>,
                 an_lineNumber := ?i + 1 \<rparr>"
  let ?st' = "split_step ?i line st"
  have st': "?st' = st\<lparr> currentSection := currentSection st @ [line] \<rparr>"
    using nd by (simp add: split_step_def)
  have step: "analyze_step dg len maxLineLength dir filePath an line = Inr ?an'"
    using nd len by (simp add: analyze_step_def Let_def)
  from sim have e: "currentSectionStartsWithDivider st \<longrightarrow> currentSection st \<noteq> []"
    and d: "?run = drop (?i - length ?run) (take ?i L)" and le: "length ?run \<le> ?i"
    by (simp_all add: sim_def)
  have run': "run_of ?st' = ?run @ [line]"
    using e by (cases "currentSection st") (auto simp: st' run_of_def)
  have tk: "take (Suc ?i) L = take ?i L @ [line]"
    using i line by (simp add: take_Suc_conv_app_nth)
  have d': "run_of ?st' = drop (Suc ?i - length (run_of ?st')) (take (Suc ?i) L)"
  proof -
    have "drop (?i - length ?run) (take ?i L @ [line]) = drop (?i - length ?run) (take ?i L) @ [line]"
      using i by simp
    with d show ?thesis unfolding run' tk by simp
  qed
  have "sim dir filePath L ?st' ?an'"
    unfolding sim_def
  proof (intro conjI)
    show "an_lineNumber ?an' \<le> length L" using i by simp
    show "startLine (an_currentSection ?an')
            = int (an_lineNumber ?an') - int (length (run_of ?st')) + 1"
      using sim by (simp add: sim_def run')
    show "lineCount (an_currentSection ?an') = length (run_of ?st')"
      using sim by (simp add: sim_def run')
    show "length (run_of ?st') \<le> an_lineNumber ?an'" using le by (simp add: run')
    show "run_of ?st' = drop (an_lineNumber ?an' - length (run_of ?st')) (take (an_lineNumber ?an') L)"
      using d' by simp
    show "currentSectionStartsWithDivider ?st' \<longrightarrow> currentSection ?st' \<noteq> []"
      by (simp add: st')
    show "\<forall>l \<in> set (currentSection ?st'). NL \<notin> set l"
      using sim nl by (auto simp: sim_def st')
    show "\<exists>ss. stream_sections dir filePath (an_sections ?an') = Inr ss
               \<and> map stream_content ss = map section_body (sections ?st')"
      using sim by (simp add: sim_def st')
  qed
  with step show ?thesis by (intro exI[of _ ?an']) simp
qed

lemma sim_step_divider:
  assumes sim: "sim dir filePath L st an"
    and fl: "readFile dir filePath = Some file" "readline_lines file = L"
    and i: "an_lineNumber an < length L" and line: "line = L ! an_lineNumber an"
    and len: "length line \<le> maxLineLength" and nl: "NL \<notin> set line"
    and dv: "dividerPattern line"
    and body: "\<forall>s \<in> set (sections (split_step (an_lineNumber an) line st)). section_body s \<noteq> []"
  shows "\<exists>an'. analyze_step dg len maxLineLength dir filePath an line = Inr an'
           \<and> an_lineNumber an' = Suc (an_lineNumber an)
           \<and> sim dir filePath L (split_step (an_lineNumber an) line st) an'"
proof -
  let ?i = "an_lineNumber an"
  let ?run = "run_of st"
  let ?cur = "an_currentSection an"
  let ?st' = "split_step ?i line st"
  from sim have e: "currentSectionStartsWithDivider st \<longrightarrow> currentSection st \<noteq> []"
    and d: "?run = drop (?i - length ?run) (take ?i L)" and le: "length ?run \<le> ?i"
    and sl: "startLine ?cur = int ?i - int (length ?run) + 1"
    and lc: "lineCount ?cur = length ?run"
    and nls: "\<forall>l \<in> set (currentSection st). NL \<notin> set l"
    by (simp_all add: sim_def)
  from sim obtain ss where ss: "stream_sections dir filePath (an_sections an) = Inr ss"
      "map stream_content ss = map section_body (sections st)"
    by (auto simp: sim_def)
  have cur': "currentSection ?st' = [line]" "currentSectionStartsWithDivider ?st'"
    using dv by (simp_all add: split_step_def Let_def)
  have run': "run_of ?st' = []" using cur' by (simp add: run_of_def)
  show ?thesis
  proof (cases "currentSection st = []")
    case True
    then have r0: "?run = []" by (simp add: run_of_def)
    let ?an' = "an\<lparr> an_dividerLines := an_dividerLines an @ [?i + 1],
                   an_currentSection := new_section (int (?i + 1) + 1) True,
                   an_lineNumber := ?i + 1 \<rparr>"
    have step: "analyze_step dg len maxLineLength dir filePath an line = Inr ?an'"
      using dv len lc r0 by (simp add: analyze_step_def Let_def)
    have secs: "sections ?st' = sections st"
      using dv True by (simp add: split_step_def Let_def)
    have "sim dir filePath L ?st' ?an'"
      unfolding sim_def using i nl ss cur' by (simp add: run' secs new_section_def)
    with step show ?thesis by (intro exI[of _ ?an']) simp
  next
    case False
    have secs: "sections ?st' = push_section (int ?i) st"
      using dv False by (simp add: split_step_def Let_def)
    have pb: "section_body (last (push_section (int ?i) st)) = join_nl ?run"
      using section_body_pushed[OF False nls] by (simp add: push_section_def run_of_def)
    have "last (push_section (int ?i) st) \<in> set (sections ?st')"
      unfolding secs by (simp add: push_section_def)
    with body pb have jn: "join_nl ?run \<noteq> []" by metis
    then have rn: "?run \<noteq> []" by auto
    have ex: "extractSection dir filePath (startLine ?cur) (int ?i) = Inr (join_nl ?run)"
      unfolding sl using i by (intro extractSection_run[OF fl rn le _ d]) simp
    obtain h where h: "stream_generateSectionHash dg len dir filePath (startLine ?cur) (int ?i) = Inr h"
      using ex jn by (simp add: stream_generateSectionHash_def generateSectionHash_def)
    let ?m = "?cur\<lparr> lineCount := lineCount ?cur + 1, endLine := Some (int ?i), meta_hash := Some h \<rparr>"
    let ?an' = "an\<lparr> an_sections := an_sections an @ [?m],
                   an_dividerLines := an_dividerLines an @ [?i + 1],
                   an_currentSection := new_section (int (?i + 1) + 1) True,
                   an_lineNumber := ?i + 1 \<rparr>"
    have step: "analyze_step dg len maxLineLength dir filePath an line = Inr ?an'"
      using dv len lc rn h by (simp add: analyze_step_def Let_def)
    have sn: "stream_sections dir filePath (an_sections an @ [?m])
           = Inr (ss @ [\<lparr> stream_content = join_nl ?run, stream_hash = meta_hash ?m,
                           lineRange = (startLine ?m, endLine ?m),
                           stream_hasDivider = meta_hasDivider ?m \<rparr>])"
      using ex by (intro stream_sections_snoc[OF ss(1)]) simp_all
    have bodies: "map section_body (sections ?st') = map section_body (sections st) @ [join_nl ?run]"
      unfolding secs using pb by (simp add: push_section_def)
    have "sim dir filePath L ?st' ?an'"
      unfolding sim_def using i nl cur' sn ss(2) bodies by (simp add: run' new_section_def)
    with step show ?thesis by (intro exI[of _ ?an']) simp
  qed
qed

lemma split_loop_sections_mono:
  "set (sections st) \<subseteq> set (sections (split_loop i ls st))"
proof (induction ls arbitrary: i st)
  case Nil
  show ?case by simp
next
  case (Cons l ls)
  have "set (sections st) \<subseteq> set (sections (split_step i l st))"
    by (auto simp: split_step_def push_section_def Let_def)
  with Cons[of "split_step i l st" "Suc i"] show ?case by auto
qed

lemma sim_loop:
  assumes "sim dir filePath L st an"
    and "readFile dir filePath = Some file" "readline_lines file = L"
    and "drop (an_lineNumber an) L = ls"
    and "\<forall>l \<in> set ls. length l \<le> maxLineLength \<and> NL \<notin> set l"
    and "\<forall>s \<in> set (sections (split_loop (an_lineNumber an) ls st)). section_body s \<noteq> []"
  shows "\<exists>an'. analyze_loop dg len maxLineLength dir filePath ls an = Inr an'
           \<and> an_lineNumber an' = length L
           \<and> sim dir filePath L (split_loop (an_lineNumber an) ls st) an'"
  using assms
proof (induction ls arbitrary: st an)
  case Nil
  then have "an_lineNumber an = length L" by (simp add: sim_def)
  with Nil show ?case by simp
next
  case (Cons l ls)
  let ?i = "an_lineNumber an"
  from Cons.prems(4) have i: "?i < length L" by (metis drop_all leI list.distinct(1))
  then have l: "l = L ! ?i" and rest: "drop (Suc ?i) L = ls"
    using Cons.prems(4) by (simp_all add: Cons_nth_drop_Suc[symmetric])
  have len: "length l \<le> maxLineLength" and nl: "NL \<notin> set l" using Cons.prems(5) by simp_all
  have body: "\<forall>s \<in> set (sections (split_step ?i l st)). section_body s \<noteq> []"
    using Cons.prems(6) split_loop_sections_mono[where st = "split_step ?i l st" and i = "Suc ?i" and ls = ls] by auto
  have "\<exists>an'. analyze_step dg len maxLineLength dir filePath an l = Inr an'
           \<and> an_lineNumber an' = Suc ?i
           \<and> sim dir filePath L (split_step ?i l st) an'"
  proof (cases "dividerPattern l")
    case True
    with sim_step_divider[OF Cons.prems(1-3) i l len nl _ body] show ?thesis by simp
  next
    case False
    with sim_step_content[OF Cons.prems(1) i l len nl] show ?thesis by simp
  qed
  then obtain an1 where a1: "analyze_step dg len maxLineLength dir filePath an l = Inr an1"
      "an_lineNumber an1 = Suc ?i" "sim dir filePath L (split_step ?i l st) an1"
    by blast
  have "\<exists>an'. analyze_loop dg len maxLineLength dir filePath ls an1 = Inr an'
           \<and> an_lineNumber an' = length L
           \<and> sim dir filePath L (split_loop (an_lineNumber an1) ls (split_step ?i l st)) an'"
  proof (rule Cons.IH[OF a1(3) Cons.prems(2,3)])
    show "drop (an_lineNumber an1) L = ls" using rest a1(2) by simp
    show "\<forall>l \<in> set ls. length l \<le> maxLineLength \<and> NL \<notin> set l" using Cons.prems(5) by simp
    show "\<forall>s \<in> set (sections (split_loop (an_lineNumber an1) ls (split_step ?i l st))).
            section_body s \<noteq> []"
      using Cons.prems(6) a1(2) by simp
  qed
  with a1 show ?case by simp
qed

text \<open>
  Where the two strategies see the same lines and both succeed: on a file that is not
  empty, holds no CR and does not end in a newline, whose lines are within the line-length
  limit and whose in-memory sections all have text after their divider line, the
  streaming sections are the in-memory sections without their divider lines.
\<close>

lemma streamSplit_section_bodies:
  assumes "readFile dir filePath = Some file" and "filePath \<noteq> []" and "trim filePath \<noteq> []"
    and "file \<noteq> []" and "CR \<notin> set file" and "last file \<noteq> NL"
    and "\<forall>l \<in> set (split_nl file). length l \<le> maxLineLength"
    and "\<forall>s \<in> set (splitContent file). section_body s \<noteq> []"
  shows "\<exists>ss. streamSplit dg len maxLineLength dir filePath = Inr ss
           \<and> readAndSplit dir filePath = Inr (splitContent file)
           \<and> length ss = length (splitContent file)
           \<and> map stream_content ss = map section_body (splitContent file)"
proof -
  let ?L = "split_nl file"
  let ?an0 = "\<lparr> an_sections = [], an_dividerLines = [],
                an_currentSection = new_section 1 False, an_lineNumber = 0 \<rparr>"
  let ?st = "split_loop 0 ?L split_init"
  have rl: "readline_lines file = ?L" using assms(4-6) by (rule readline_lines_split_nl)
  have cur: "currentSection ?st \<noteq> []"
    by (rule split_loop_cur_nonempty) (simp add: split_nl_nonempty)
  have sc: "splitContent file = push_section (int (length ?L)) ?st"
    using assms(4) cur by (simp add: splitContent_def Let_def)
  have sim0: "sim dir filePath ?L split_init ?an0"
    by (simp add: sim_def split_init_def run_of_def new_section_def)
  have lines: "\<forall>l \<in> set ?L. length l \<le> maxLineLength \<and> NL \<notin> set l"
    using assms(7) split_nl_no_NL by blast
  have bodies: "\<forall>s \<in> set (sections (split_loop (an_lineNumber ?an0) ?L split_init)). section_body s \<noteq> []"
    using assms(8) unfolding sc by (simp add: push_section_def)
  have "\<exists>an'. analyze_loop dg len maxLineLength dir filePath ?L ?an0 = Inr an'
           \<and> an_lineNumber an' = length ?L
           \<and> sim dir filePath ?L (split_loop (an_lineNumber ?an0) ?L split_init) an'"
    using sim0 assms(1) rl _ lines bodies by (rule sim_loop) simp
  then obtain an where an: "analyze_loop dg len maxLineLength dir filePath ?L ?an0 = Inr an"
      "an_lineNumber an = length ?L" "sim dir filePath ?L ?st an"
    by auto
  let ?run = "run_of ?st"
  let ?cur = "an_currentSection an"
  from an(3) have d: "?run = drop (length ?L - length ?run) (take (length ?L) ?L)"
    and le: "length ?run \<le> length ?L"
    and sl: "startLine ?cur = int (length ?L) - int (length ?run) + 1"
    and lc: "lineCount ?cur = length ?run"
    and nls: "\<forall>l \<in> set (currentSection ?st). NL \<notin> set l"
    unfolding sim_def an(2) by simp_all
  from an(3) obtain ss where ss: "stream_sections dir filePath (an_sections an) = Inr ss"
      "map stream_content ss = map section_body (sections ?st)"
    by (auto simp: sim_def)
  have pb: "section_body (last (splitContent file)) = join_nl ?run"
    unfolding sc using section_body_pushed[OF cur nls] by (simp add: push_section_def run_of_def)
  have "last (splitContent file) \<in> set (splitContent file)"
    unfolding sc by (simp add: push_section_def)
  with assms(8) pb have jn: "join_nl ?run \<noteq> []" by metis
  then have rn: "?run \<noteq> []" by auto
  have ex: "extractSection dir filePath (startLine ?cur) (int (length ?L)) = Inr (join_nl ?run)"
    unfolding sl by (intro extractSection_run[OF assms(1) rl rn le _ d]) simp
  obtain h where h: "stream_generateSectionHash dg len dir filePath (startLine ?cur) (int (length ?L)) = Inr h"
    using ex jn by (simp add: stream_generateSectionHash_def generateSectionHash_def)
  let ?m = "?cur\<lparr> endLine := Some (int (length ?L)), meta_hash := Some h \<rparr>"
  have af: "analyzeFile dg len maxLineLength dir filePath
              = Inr (an\<lparr> an_sections := an_sections an @ [?m] \<rparr>)"
    using assms(1-3) rl an(1,2) lc rn h by (simp add: analyzeFile_def Let_def)
  have sn: "stream_sections dir filePath (an_sections an @ [?m])
           = Inr (ss @ [\<lparr> stream_content = join_nl ?run, stream_hash = meta_hash ?m,
                           lineRange = (startLine ?m, endLine ?m),
                           stream_hasDivider = meta_hasDivider ?m \<rparr>])"
    using ex by (intro stream_sections_snoc[OF ss(1)]) simp_all
  let ?ss = "ss @ [\<lparr> stream_content = join_nl ?run, stream_hash = meta_hash ?m,
                           lineRange = (startLine ?m, endLine ?m),
                           stream_hasDivider = meta_hasDivider ?m \<rparr>]"
  have r1: "streamSplit dg len maxLineLength dir filePath = Inr ?ss"
    using af sn by (simp add: streamSplit_def)
  have r2: "readAndSplit dir filePath = Inr (splitContent file)"
    using assms(1-3) by (simp add: readAndSplit_def)
  have r4: "map stream_content ?ss = map section_body (splitContent file)"
    using ss(2) pb unfolding sc by (simp add: push_section_def)
  from arg_cong[OF r4, of length] have r3: "length ?ss = length (splitContent file)" by simp
  from r1 r2 r3 r4 show ?thesis by blast
qed

lemma hybrid_readAndSplit_memory:
  assumes "readFile dir filePath = Some fl" "byteLength fl \<le> threshold"
  shows "hybrid_readAndSplit threshold dg len maxLineLength dir filePath
           = map_sum id MemorySections (readAndSplit dir filePath)"
  using assms by (simp add: hybrid_readAndSplit_def split: sum.splits)

lemma hybrid_readAndSplit_streaming:
  assumes "readFile dir filePath = Some fl" "byteLength fl > threshold"
  shows "hybrid_readAndSplit threshold dg len maxLineLength dir filePath
           = map_sum id StreamingSections (streamSplit dg len maxLineLength dir filePath)"
  using assms by (simp add: hybrid_readAndSplit_def split: sum.splits)

text \<open>
  Claim C3 fails in the code: \<open>HybridFileProcessor.readAndSplit\<close> returns different
  section contents for the same file, depending only on the threshold. The file
  \<open>"A\n---:\nB"\<close> has 8 bytes and no divider-only run. With the default threshold it is
  split in memory, into the contents \<open>"A"\<close> and \<open>"---:\nB"\<close>; with a threshold of 7 bytes
  it is split by streaming, into the contents \<open>"A"\<close> and \<open>"B"\<close>: the streaming section
  starts on the line after the divider, the in-memory section on the divider line.
\<close>

theorem hybrid_readAndSplit_strategies_differ:
  "byteLength ''A\<newline>---:\<newline>B'' = 8
   \<and> \<not> divider_only_run (split_nl ''A\<newline>---:\<newline>B'')
   \<and> hybrid_readAndSplit (streamingThreshold None) example_digest 8 10000
         [''f.md'' \<mapsto> ''A\<newline>---:\<newline>B''] ''f.md''
       = Inr (MemorySections
           [\<lparr> index = 0, content = ''A'', hasDivider = False,
               originalDividerLine = None, lineStart = 1, lineEnd = 1 \<rparr>,
            \<lparr> index = 1, content = ''---:\<newline>B'', hasDivider = True,
               originalDividerLine = Some ''---:'', lineStart = 2, lineEnd = 3 \<rparr>])
   \<and> hybrid_readAndSplit (streamingThreshold (Some 7)) example_digest 8 10000
         [''f.md'' \<mapsto> ''A\<newline>---:\<newline>B''] ''f.md''
       = Inr (StreamingSections
           [\<lparr> stream_content = ''A'', stream_hash = Some ''41000000'',
               lineRange = (1, Some 1), stream_hasDivider = False \<rparr>,
            \<lparr> stream_content = ''B'', stream_hash = Some ''42000000'',
               lineRange = (3, Some 3), stream_hasDivider = True \<rparr>])"
proof -
  define F where "F = ''A\<newline>---:\<newline>B''"
  define p where "p = ''f.md''"
  define d where "d = [p \<mapsto> F]"
  have r: "readFile d p = Some F" by (simp add: readFile_def d_def)
  have b: "byteLength F = 8" unfolding F_def by code_simp
  have n: "\<not> divider_only_run (split_nl F)" unfolding F_def by code_simp
  have m: "map_sum id MemorySections (readAndSplit d p)
       = Inr (MemorySections
           [\<lparr> index = 0, content = ''A'', hasDivider = False,
               originalDividerLine = None, lineStart = 1, lineEnd = 1 \<rparr>,
            \<lparr> index = 1, content = ''---:\<newline>B'', hasDivider = True,
               originalDividerLine = Some ''---:'', lineStart = 2, lineEnd = 3 \<rparr>])"
    unfolding d_def p_def F_def by code_simp
  have s: "map_sum id StreamingSections (streamSplit example_digest 8 10000 d p)
       = Inr (StreamingSections
           [\<lparr> stream_content = ''A'', stream_hash = Some ''41000000'',
               lineRange = (1, Some 1), stream_hasDivider = False \<rparr>,
            \<lparr> stream_content = ''B'', stream_hash = Some ''42000000'',
               lineRange = (3, Some 3), stream_hasDivider = True \<rparr>])"
    unfolding d_def p_def F_def by code_simp
  have t1: "byteLength F \<le> streamingThreshold None" unfolding b by (simp add: streamingThreshold_def)
  have t2: "byteLength F > streamingThreshold (Some 7)" unfolding b by (simp add: streamingThreshold_def)
  note m' = hybrid_readAndSplit_memory [OF r t1, of example_digest 8 10000, unfolded m]
  note s' = hybrid_readAndSplit_streaming [OF r t2, of example_digest 8 10000, unfolded s]
  from b n m' s' show ?thesis unfolding d_def p_def F_def by (intro conjI)
qed

text \<open>
  Two more files on which the branches differ. A final newline is part of the in-memory
  section and of no streaming section; and a section that is one empty line makes the
  streaming branch fail with the error of the section hash, where the in-memory branch
  returns three sections.
\<close>

lemma hybrid_readAndSplit_further_files:
  "map_sum id section_contents (map_sum id MemorySections (readAndSplit [''f.md'' \<mapsto> ''A\<newline>''] ''f.md''))
     = Inr [''A\<newline>'']
   \<and> map_sum id section_contents
        (map_sum id StreamingSections (streamSplit example_digest 8 10000 [''f.md'' \<mapsto> ''A\<newline>''] ''f.md''))
     = Inr [''A'']
   \<and> map_sum id section_contents
        (map_sum id MemorySections
           (readAndSplit [''f.md'' \<mapsto> ''A\<newline>---:\<newline>\<newline>---:\<newline>B''] ''f.md''))
     = Inr [''A'', ''---:\<newline>'', ''---:\<newline>B'']
   \<and> streamSplit example_digest 8 10000
        [''f.md'' \<mapsto> ''A\<newline>---:\<newline>\<newline>---:\<newline>B''] ''f.md''
     = Inl MissingContent"
  by code_simp

section \<open>Split, write and reconstruct\<close>

lemma split_step_inv2:
  assumes "split_inv2 st" "NL \<notin> set l"
  shows "split_inv2 (split_step i l st)"
proof (cases "dividerPattern l")
  case False
  with assms show ?thesis
    by (cases "currentSection st")
       (auto simp: split_inv2_def split_step_def split: option.splits)
next
  case True
  show ?thesis
  proof (cases "currentSection st = []")
    case e: True
    with True assms show ?thesis
      by (auto simp: split_inv2_def split_step_def Let_def)
  next
    case ne: False
    have nls: "\<forall>x \<in> set (currentSection st). NL \<notin> set x"
      using assms(1) by (simp add: split_inv2_def list_all_iff)
    have sj: "split_nl (join_nl (currentSection st)) = currentSection st"
      using ne nls by (rule split_join_nl)
    let ?new = "\<lparr> index = sectionIndex st, content = join_nl (currentSection st),
        hasDivider = currentSectionStartsWithDivider st,
        originalDividerLine = currentSectionDividerLine st,
        lineStart = int i - int (length (currentSection st)) + 1, lineEnd = int i \<rparr>"
    have new_ok: "hasDivider ?new \<longrightarrow> divider_section ?new"
      using assms(1) sj by (auto simp: split_inv2_def divider_section_def split: option.splits)
    have new_div: "sections st \<noteq> [] \<longrightarrow> hasDivider ?new"
      using assms(1) by (simp add: split_inv2_def)
    have tl_ok: "list_all hasDivider (tl (sections st @ [?new]))"
      using assms(1) new_div by (cases "sections st") (auto simp: split_inv2_def)
    have st': "split_step i l st = st\<lparr> sections := sections st @ [?new],
                  currentSection := [l], sectionIndex := sectionIndex st + 1,
                  currentSectionStartsWithDivider := True,
                  currentSectionDividerLine := Some l \<rparr>"
      using True ne by (simp add: split_step_def Let_def push_section_def)
    show ?thesis unfolding st' split_inv2_def
      using assms True new_ok tl_ok by (simp add: split_inv2_def)
  qed
qed

lemma split_loop_inv2:
  "split_inv2 st \<Longrightarrow> \<forall>l \<in> set ls. NL \<notin> set l \<Longrightarrow> split_inv2 (split_loop i ls st)"
proof (induction ls arbitrary: i st)
  case Nil
  then show ?case by simp
next
  case (Cons l ls)
  then show ?case by (simp add: split_step_inv2)
qed

lemma splitContent_dividers:
  "list_all (\<lambda>s. hasDivider s \<longrightarrow> divider_section s) (splitContent T)
   \<and> list_all hasDivider (tl (splitContent T))"
proof (cases "T = []")
  case True
  then show ?thesis by (simp add: splitContent_def)
next
  case False
  let ?L = "split_nl T"
  let ?st = "split_loop 0 ?L split_init"
  have inv: "split_inv2 ?st"
    by (rule split_loop_inv2) (auto simp: split_inv2_def split_init_def dest: split_nl_no_NL)
  have cur: "currentSection ?st \<noteq> []"
    by (rule split_loop_cur_nonempty) (simp add: split_nl_nonempty)
  have sc: "splitContent T = push_section (int (length ?L)) ?st"
    using False cur by (simp add: splitContent_def Let_def)
  have nls: "\<forall>x \<in> set (currentSection ?st). NL \<notin> set x"
    using inv by (simp add: split_inv2_def list_all_iff)
  have sj: "split_nl (join_nl (currentSection ?st)) = currentSection ?st"
    using cur nls by (rule split_join_nl)
  let ?new = "\<lparr> index = sectionIndex ?st, content = join_nl (currentSection ?st),
        hasDivider = currentSectionStartsWithDivider ?st,
        originalDividerLine = currentSectionDividerLine ?st,
        lineStart = int (length ?L) - int (length (currentSection ?st)) + 1,
        lineEnd = int (length ?L) \<rparr>"
  have new_ok: "hasDivider ?new \<longrightarrow> divider_section ?new"
    using inv sj by (auto simp: split_inv2_def divider_section_def split: option.splits)
  have new_div: "sections ?st \<noteq> [] \<longrightarrow> hasDivider ?new"
    using inv by (simp add: split_inv2_def)
  have tl_ok: "list_all hasDivider (tl (sections ?st @ [?new]))"
    using inv new_div by (cases "sections ?st") (auto simp: split_inv2_def)
  show ?thesis unfolding sc push_section_def
    using inv new_ok tl_ok by (simp add: split_inv2_def)
qed

lemma hex_digit_digit: "n < 10 \<Longrightarrow> is_digit (hex_digit n)"
proof -
  assume small: "n < 10"
  have "list_all (\<lambda>k. is_digit (hex_digit k)) [0 ..< 10]" by code_simp
  moreover have "n \<in> set [0 ..< 10]" using small by simp
  ultimately show ?thesis unfolding list_all_iff by blast
qed

lemma decimal_small: "n < 10 \<Longrightarrow> decimal n = [hex_digit n]"
  by (simp add: decimal.simps)

lemma decimal_large: "10 \<le> n \<Longrightarrow> decimal n = decimal (n div 10) @ [hex_digit (n mod 10)]"
  by (subst decimal.simps) simp

lemma decimal_two:
  assumes "10 \<le> n" "n < 100"
  shows "decimal n = [hex_digit (n div 10), hex_digit (n mod 10)]"
proof -
  have "n div 10 < 10" using assms by simp
  then show ?thesis using assms(1) by (simp add: decimal_large decimal_small)
qed

lemma pad2_digits:
  assumes "n < 100"
  shows "\<exists>a b. pad2 n = [a, b] \<and> is_digit a \<and> is_digit b"
proof (cases "n < 10")
  case True
  then have "pad2 n = [CHR ''0'', hex_digit n]" by (simp add: pad2_def decimal_small)
  moreover have "is_digit CHR ''0''" by (simp add: is_digit_def)
  ultimately show ?thesis using hex_digit_digit[OF True] by simp
next
  case False
  then have d: "decimal n = [hex_digit (n div 10), hex_digit (n mod 10)]"
    using assms by (intro decimal_two) simp_all
  have "n div 10 < 10" using assms by simp
  then have "is_digit (hex_digit (n div 10))" by (rule hex_digit_digit)
  moreover have "is_digit (hex_digit (n mod 10))" by (rule hex_digit_digit) simp
  ultimately show ?thesis using d by (simp add: pad2_def)
qed

lemma decimal_four:
  assumes "1000 \<le> n" "n \<le> 9999"
  shows "\<exists>a b c d. decimal n = [a, b, c, d] \<and> is_digit a \<and> is_digit b \<and> is_digit c \<and> is_digit d"
proof -
  let ?h = "n div 10"
  let ?k = "n div 100"
  have h: "100 \<le> ?h" "?h < 1000" using assms by simp_all
  have k: "10 \<le> ?k" "?k < 100" using assms by simp_all
  have kk: "?h div 10 = ?k" by (simp add: div_mult2_eq)
  have "decimal n = decimal ?h @ [hex_digit (n mod 10)]" using assms by (intro decimal_large) simp
  also have "decimal ?h = decimal ?k @ [hex_digit (?h mod 10)]"
    using h kk decimal_large[of ?h] by simp
  also have "decimal ?k = [hex_digit (?k div 10), hex_digit (?k mod 10)]"
    using k by (rule decimal_two)
  finally have d: "decimal n = [hex_digit (?k div 10), hex_digit (?k mod 10),
                                hex_digit (?h mod 10), hex_digit (n mod 10)]" by simp
  have "?k div 10 < 10" using k by simp
  then have "is_digit (hex_digit (?k div 10))" by (rule hex_digit_digit)
  moreover have "is_digit (hex_digit (?k mod 10))" by (rule hex_digit_digit) simp
  moreover have "is_digit (hex_digit (?h mod 10))" by (rule hex_digit_digit) simp
  moreover have "is_digit (hex_digit (n mod 10))" by (rule hex_digit_digit) simp
  ultimately show ?thesis using d by blast
qed

lemma digit_not_space: "is_digit c \<Longrightarrow> \<not> is_space c"
  by (auto simp: is_digit_def is_space_def)

lemma formatTimestamp_shape:
  assumes "valid_date d"
  shows "\<exists>h1 h2 m1 m2 s1 s2 y1 y2 y3 y4 o1 o2 d1 d2.
           formatTimestamp d = [h1, h2, CHR '':'', m1, m2, CHR '':'', s1, s2, CHR 0x20,
                                y1, y2, y3, y4, CHR ''/'', o1, o2, CHR ''/'', d1, d2]
           \<and> list_all is_digit [h1, h2, m1, m2, s1, s2, y1, y2, y3, y4, o1, o2, d1, d2]"
proof -
  from assms have r: "getHours d < 100" "getMinutes d < 100" "getSeconds d < 100"
      "getMonth d + 1 < 100" "getDate d < 100" "1000 \<le> getFullYear d" "getFullYear d \<le> 9999"
    by (simp_all add: valid_date_def)
  obtain h1 h2 where h: "pad2 (getHours d) = [h1, h2]" "is_digit h1" "is_digit h2"
    using pad2_digits[OF r(1)] by blast
  obtain m1 m2 where m: "pad2 (getMinutes d) = [m1, m2]" "is_digit m1" "is_digit m2"
    using pad2_digits[OF r(2)] by blast
  obtain s1 s2 where s: "pad2 (getSeconds d) = [s1, s2]" "is_digit s1" "is_digit s2"
    using pad2_digits[OF r(3)] by blast
  obtain o1 o2 where o: "pad2 (getMonth d + 1) = [o1, o2]" "is_digit o1" "is_digit o2"
    using pad2_digits[OF r(4)] by blast
  obtain d1 d2 where dd: "pad2 (getDate d) = [d1, d2]" "is_digit d1" "is_digit d2"
    using pad2_digits[OF r(5)] by blast
  obtain y1 y2 y3 y4 where y: "decimal (getFullYear d) = [y1, y2, y3, y4]"
      "is_digit y1" "is_digit y2" "is_digit y3" "is_digit y4"
    using decimal_four[OF r(6,7)] by blast
  have "formatTimestamp d = [h1, h2, CHR '':'', m1, m2, CHR '':'', s1, s2, CHR 0x20,
                                y1, y2, y3, y4, CHR ''/'', o1, o2, CHR ''/'', d1, d2]"
    unfolding formatTimestamp_def h m s o dd y by simp
  moreover have "list_all is_digit [h1, h2, m1, m2, s1, s2, y1, y2, y3, y4, o1, o2, d1, d2]"
    using h m s o dd y by simp
  ultimately show ?thesis by blast
qed

lemma formatTimestamp_matches:
  assumes "valid_date d"
  shows "matches timestamp_rx (formatTimestamp d)"
    and "NL \<notin> set (formatTimestamp d)" and "CHR ''$'' \<notin> set (formatTimestamp d)"
proof -
  from formatTimestamp_shape[OF assms]
  obtain h1 h2 m1 m2 s1 s2 y1 y2 y3 y4 o1 o2 d1 d2 where
    f: "formatTimestamp d = [h1, h2, CHR '':'', m1, m2, CHR '':'', s1, s2, CHR 0x20,
                                y1, y2, y3, y4, CHR ''/'', o1, o2, CHR ''/'', d1, d2]"
    and g: "list_all is_digit [h1, h2, m1, m2, s1, s2, y1, y2, y3, y4, o1, o2, d1, d2]"
    by blast
  have sp: "is_space CHR 0x20" by (simp add: is_space_def)
  show "matches timestamp_rx (formatTimestamp d)"
    unfolding f timestamp_rx_def using g sp by (simp add: digit_not_space)
  have nd: "\<And>c. is_digit c \<Longrightarrow> c \<noteq> NL \<and> c \<noteq> CHR ''$''"
    by (auto simp: is_digit_def NL_def)
  show "NL \<notin> set (formatTimestamp d)" unfolding f using g nd by (auto simp: NL_def)
  show "CHR ''$'' \<notin> set (formatTimestamp d)" unfolding f using g nd by auto
qed

lemma hex_chars: "is_hex c \<Longrightarrow> c \<noteq> NL \<and> c \<noteq> CHR ''$''"
  by (auto simp: is_hex_def NL_def)

lemma createDividerLine_chars:
  assumes "valid_date d" "\<forall>c \<in> set h. is_hex c"
  shows "NL \<notin> set (createDividerLine h d)" and "CHR ''$'' \<notin> set (createDividerLine h d)"
  using assms formatTimestamp_matches(2,3)[OF assms(1)] hex_chars
  by (auto simp: createDividerLine_def NL_def)

lemma createDividerLine_enhanced:
  assumes "valid_date d" "h \<noteq> []" "\<forall>c \<in> set h. is_hex c"
  shows "enhancedDividerPattern (createDividerLine h d)"
proof -
  let ?ts = "formatTimestamp d"
  have sp: "is_space CHR 0x20" by (simp add: is_space_def)
  have "matches (Plus Space # timestamp_rx) ([CHR 0x20] @ ?ts)"
    unfolding matches_Plus_iff using sp formatTimestamp_matches(1)[OF assms(1)]
    by (intro exI[of _ "[CHR 0x20]"] exI[of _ ?ts]) simp
  then have "\<exists>w h' b. createDividerLine h d = ''---:'' @ w @ h' @ b \<and> w \<noteq> []
        \<and> (\<forall>c \<in> set w. is_space c) \<and> h' \<noteq> [] \<and> (\<forall>c \<in> set h'. is_hex c)
        \<and> matches (Plus Space # timestamp_rx) b"
    using assms(2,3) sp
    by (intro exI[of _ "[CHR 0x20]"] exI[of _ h] exI[of _ "[CHR 0x20] @ ?ts"])
       (simp add: createDividerLine_def)
  then have "matches (hash_divider_rx @ (Plus Space # timestamp_rx)) (createDividerLine h d)"
    unfolding hash_divider_shape .
  then show ?thesis by (simp add: enhancedDividerPattern_def)
qed

lemma referencePattern_hash_line:
  assumes "h \<noteq> []" "\<forall>c \<in> set h. is_hex c"
  shows "referencePattern (''---: '' @ h) = Some h"
proof -
  have sp: "is_space CHR 0x20" by (simp add: is_space_def)
  have "\<exists>w h' b. ''---: '' @ h = ''---:'' @ w @ h' @ b \<and> w \<noteq> []
        \<and> (\<forall>c \<in> set w. is_space c) \<and> h' \<noteq> [] \<and> (\<forall>c \<in> set h'. is_hex c) \<and> matches [] b"
    using assms sp by (intro exI[of _ "[CHR 0x20]"] exI[of _ h] exI[of _ "[]"]) simp
  then have "matches (hash_divider_rx @ []) (''---: '' @ h)"
    unfolding hash_divider_shape .
  then have m: "matches hash_divider_rx (''---: '' @ h)" by simp
  have "\<not> is_space (hd h)" using assms hex_not_space by (cases h) auto
  then have "dropWhile is_space (CHR 0x20 # h) = h" using sp assms(1) by (cases h) auto
  moreover have "takeWhile is_hex h = h" using assms(2) by (simp add: takeWhile_eq_all_conv)
  ultimately have "takeWhile is_hex (dropWhile is_space (drop 4 (''---: '' @ h))) = h" by simp
  with m show ?thesis unfolding referencePattern_def by simp
qed

lemma expand_no_dollar:
  "CHR ''$'' \<notin> set r \<Longrightarrow> expand_replacement m pre post r = r"
  by (induction m pre post r rule: expand_replacement.induct) auto

lemma replace_first_prefix:
  assumes "d \<noteq> []" "CHR ''$'' \<notin> set rep"
  shows "replace_first d rep (d @ r) = rep @ r"
proof -
  obtain c cs where dr: "d @ r = c # cs" using assms(1) by (cases d) auto
  have "take (length d) (c # cs) = d" "drop (length d) (c # cs) = r"
    using dr[symmetric] by simp_all
  then show ?thesis
    unfolding replace_first_def dr using assms(2) by (simp add: expand_no_dollar)
qed

lemma dividerPattern_nonempty: "dividerPattern d \<Longrightarrow> d \<noteq> []"
  using matches_lits_iff[of "''---:''" "[Star Space]" d] by (auto simp: dividerPattern_def)

lemma divider_section_shape:
  assumes "divider_section s"
  shows "\<exists>d body. originalDividerLine s = Some d \<and> hasDivider s \<and> d \<noteq> []
           \<and> split_nl (content s) = d # body \<and> content s = d @ drop (length d) (content s)
           \<and> drop (length d) (content s) = (if body = [] then [] else NL # join_nl body)
           \<and> (\<forall>l \<in> set body. NL \<notin> set l) \<and> content s \<noteq> []"
proof -
  from assms obtain d where d: "originalDividerLine s = Some d" "hasDivider s" "dividerPattern d"
      "take 1 (split_nl (content s)) = [d]"
    by (auto simp: divider_section_def split: option.splits)
  obtain x body where sp: "split_nl (content s) = x # body"
    using split_nl_nonempty by (cases "split_nl (content s)") auto
  with d(4) have x: "x = d" by simp
  have ne: "d \<noteq> []" using d(3) by (rule dividerPattern_nonempty)
  have c: "content s = join_nl (d # body)" using join_split_nl[of "content s"] sp x by simp
  have c2: "content s = d @ (if body = [] then [] else NL # join_nl body)"
    unfolding c by (cases body) simp_all
  have dr: "drop (length d) (content s) = (if body = [] then [] else NL # join_nl body)"
    by (subst c2) simp
  have nl: "\<forall>l \<in> set body. NL \<notin> set l" using split_nl_no_NL[of _ "content s"] sp by simp
  have "content s \<noteq> []" using c2 ne by auto
  with d(1,2) ne sp x c2 dr nl show ?thesis by auto
qed

lemma modifyDividerInContent_divider:
  assumes "divider_section s" "valid_date ts" "\<forall>c \<in> set h. is_hex c"
  shows "modifyDividerInContent s h ts = join_nl (createDividerLine h ts # tl (split_nl (content s)))"
proof -
  from divider_section_shape[OF assms(1)] obtain d body where
    d: "originalDividerLine s = Some d" "hasDivider s" "d \<noteq> []"
       "split_nl (content s) = d # body" "content s = d @ drop (length d) (content s)"
       "drop (length d) (content s) = (if body = [] then [] else NL # join_nl body)"
    by blast
  have "replace_first d (createDividerLine h ts) (d @ drop (length d) (content s))
          = createDividerLine h ts @ drop (length d) (content s)"
    using d(3) createDividerLine_chars(2)[OF assms(2,3)] by (rule replace_first_prefix)
  with d(5) have "replace_first d (createDividerLine h ts) (content s)
          = createDividerLine h ts @ drop (length d) (content s)" by simp
  also have "\<dots> = join_nl (createDividerLine h ts # body)"
    unfolding d(6) by (cases body) simp_all
  finally show ?thesis using d(1-4) by (simp add: modifyDividerInContent_def)
qed

lemma clean_written_section:
  assumes "divider_section s" "valid_date ts" "h \<noteq> []" "\<forall>c \<in> set h. is_hex c"
  shows "cleanReferencedContent (join_nl (createDividerLine h ts # tl (split_nl (content s))))
           = canonical_divider s"
proof -
  let ?body = "tl (split_nl (content s))"
  have nl: "\<forall>l \<in> set (createDividerLine h ts # ?body). NL \<notin> set l"
    using createDividerLine_chars(1)[OF assms(2,4)] split_nl_no_NL[of _ "content s"]
    by (auto dest: list.set_sel(2)[OF split_nl_nonempty])
  have "split_nl (join_nl (createDividerLine h ts # ?body)) = createDividerLine h ts # ?body"
    using nl by (intro split_join_nl) simp_all
  then show ?thesis
    using createDividerLine_enhanced[OF assms(2-4)]
    by (simp add: cleanReferencedContent_def canonical_divider_def)
qed

lemma writeSection_divider:
  assumes "divider_section s"
    and "overwriteExisting w \<or> dir (section_hash w s @ fileExtension w) = None"
    and "valid_date ts" "\<forall>c \<in> set (section_hash w s). is_hex c"
  shows "writeSection w dir s ts
           = (Inr (Written (section_hash w s) (section_hash w s @ fileExtension w) (index s) True),
              dir(section_hash w s @ fileExtension w \<mapsto>
                    join_nl (createDividerLine (section_hash w s) ts # tl (split_nl (content s)))))"
proof -
  from divider_section_shape[OF assms(1)] have c: "content s \<noteq> []" and d: "hasDivider s" by auto
  have g: "generateSectionHash (digest w) (hashLength w) s = Inr (section_hash w s)"
    using c by (simp add: generateSectionHash_def section_hash_def)
  have m: "modifyDividerInContent s (section_hash w s) ts
             = join_nl (createDividerLine (section_hash w s) ts # tl (split_nl (content s)))"
    using assms(1,3,4) by (rule modifyDividerInContent_divider)
  have f: "section_filename w s (section_hash w s) = section_hash w s @ fileExtension w"
    using d by (simp add: section_filename_def split: option.splits)
  show ?thesis
    unfolding writeSection_def g using assms(2) m f d
    by (auto simp: Let_def)
qed

lemma write_loop_dividers:
  assumes "\<forall>s \<in> set secs. divider_section s"
    and "overwriteExisting w
         \<or> (distinct (map (section_hash w) secs)
             \<and> (\<forall>s \<in> set secs. dir (section_hash w s @ fileExtension w) = None))"
    and "\<forall>s \<in> set secs. \<forall>t \<in> set secs. section_hash w s = section_hash w t
            \<longrightarrow> tl (split_nl (content s)) = tl (split_nl (content t))"
    and "\<forall>s \<in> set secs. \<forall>c \<in> set (section_hash w s). is_hex c"
    and "\<forall>j. k \<le> j \<and> j < k + length secs \<longrightarrow> valid_date (clock j)"
  shows "\<exists>dir'. write_loop w clock k secs dir acc
            = (dir', acc @ map (\<lambda>s. Written (section_hash w s)
                                  (section_hash w s @ fileExtension w) (index s) True) secs)
          \<and> (\<forall>f. f \<notin> (\<lambda>s. section_hash w s @ fileExtension w) ` set secs \<longrightarrow> dir' f = dir f)
          \<and> (\<forall>s \<in> set secs. \<exists>ts. valid_date ts
                \<and> dir' (section_hash w s @ fileExtension w)
                    = Some (join_nl (createDividerLine (section_hash w s) ts
                                       # tl (split_nl (content s)))))"
  using assms
proof (induction secs arbitrary: k dir acc)
  case Nil
  then show ?case by simp
next
  case (Cons s secs)
  let ?name = "\<lambda>s. section_hash w s @ fileExtension w"
  let ?res = "\<lambda>s. Written (section_hash w s) (?name s) (index s) True"
  let ?written = "\<lambda>s ts. join_nl (createDividerLine (section_hash w s) ts # tl (split_nl (content s)))"
  let ?dir1 = "dir(?name s \<mapsto> ?written s (clock k))"
  have vd: "valid_date (clock k)" using Cons.prems(5) by simp
  have same: "tl (split_nl (content x)) = tl (split_nl (content y))"
    if "x \<in> set (s # secs)" "y \<in> set (s # secs)" "section_hash w x = section_hash w y" for x y
    using Cons.prems(3) that by blast
  have ow: "overwriteExisting w \<or> dir (?name s) = None" using Cons.prems(2) by auto
  have ws: "writeSection w dir s (clock k) = (Inr (?res s), ?dir1)"
    using Cons.prems(1,4) ow vd by (intro writeSection_divider) simp_all
  have ow1: "overwriteExisting w
         \<or> (distinct (map (section_hash w) secs) \<and> (\<forall>t \<in> set secs. ?dir1 (?name t) = None))"
  proof (cases "overwriteExisting w")
    case True
    then show ?thesis by simp
  next
    case False
    with Cons.prems(2) have d: "distinct (map (section_hash w) (s # secs))"
      and f: "\<forall>t \<in> set (s # secs). dir (?name t) = None" by simp_all
    from d have notin: "section_hash w s \<notin> section_hash w ` set secs" by simp
    have "\<forall>t \<in> set secs. ?name t \<noteq> ?name s"
    proof
      fix t assume "t \<in> set secs"
      then have "section_hash w t \<in> section_hash w ` set secs" by (rule imageI)
      with notin have "section_hash w t \<noteq> section_hash w s" by auto
      then show "?name t \<noteq> ?name s" by simp
    qed
    with d f show ?thesis by simp
  qed
  have "\<exists>dir'. write_loop w clock (Suc k) secs ?dir1 (acc @ [?res s])
            = (dir', (acc @ [?res s]) @ map ?res secs)
          \<and> (\<forall>f. f \<notin> ?name ` set secs \<longrightarrow> dir' f = ?dir1 f)
          \<and> (\<forall>t \<in> set secs. \<exists>ts. valid_date ts \<and> dir' (?name t) = Some (?written t ts))"
  proof (rule Cons.IH)
    show "\<forall>s \<in> set secs. divider_section s" using Cons.prems(1) by simp
    show "overwriteExisting w
         \<or> (distinct (map (section_hash w) secs) \<and> (\<forall>t \<in> set secs. ?dir1 (?name t) = None))"
      by (rule ow1)
    show "\<forall>s \<in> set secs. \<forall>t \<in> set secs. section_hash w s = section_hash w t
            \<longrightarrow> tl (split_nl (content s)) = tl (split_nl (content t))"
      by (intro ballI impI same) simp_all
    show "\<forall>s \<in> set secs. \<forall>c \<in> set (section_hash w s). is_hex c" using Cons.prems(4) by simp
    show "\<forall>j. Suc k \<le> j \<and> j < Suc k + length secs \<longrightarrow> valid_date (clock j)"
      using Cons.prems(5) by simp
  qed
  then obtain dir' where d: "write_loop w clock (Suc k) secs ?dir1 (acc @ [?res s])
            = (dir', (acc @ [?res s]) @ map ?res secs)"
      "\<forall>f. f \<notin> ?name ` set secs \<longrightarrow> dir' f = ?dir1 f"
      "\<forall>t \<in> set secs. \<exists>ts. valid_date ts \<and> dir' (?name t) = Some (?written t ts)"
    by blast
  have r1: "write_loop w clock k (s # secs) dir acc = (dir', acc @ map ?res (s # secs))"
    using ws d(1) by simp
  have r2: "\<forall>f. f \<notin> ?name ` set (s # secs) \<longrightarrow> dir' f = dir f"
    using d(2) by auto
  have rs: "\<exists>ts. valid_date ts \<and> dir' (?name s) = Some (?written s ts)"
  proof (cases "?name s \<in> ?name ` set secs")
    case False
    then have "dir' (?name s) = Some (?written s (clock k))" using d(2) by simp
    with vd show ?thesis by blast
  next
    case True
    then obtain t where t: "t \<in> set secs" "?name s = ?name t" by auto
    then have h: "section_hash w s = section_hash w t" by simp
    have b: "tl (split_nl (content s)) = tl (split_nl (content t))"
      using t(1) h by (intro same) simp_all
    from d(3) t(1) obtain ts where "valid_date ts" "dir' (?name t) = Some (?written t ts)" by blast
    then have "valid_date ts \<and> dir' (?name s) = Some (?written s ts)" unfolding h b by simp
    then show ?thesis by blast
  qed
  have r3: "\<forall>t \<in> set (s # secs). \<exists>ts. valid_date ts \<and> dir' (?name t) = Some (?written t ts)"
    using rs d(3) by simp
  from r1 r2 r3 show ?case by blast
qed

lemma writeSection_anchor:
  assumes "index a = 0" "\<not> hasDivider a" "content a \<noteq> []"
  shows "writeSection w Map.empty a ts
           = (Inr (Written (section_hash w a) (section_filename w a (section_hash w a)) 0 False),
              [section_filename w a (section_hash w a) \<mapsto> content a])"
proof -
  have g: "generateSectionHash (digest w) (hashLength w) a = Inr (section_hash w a)"
    using assms(3) by (simp add: generateSectionHash_def section_hash_def)
  have m: "modifyDividerInContent a (section_hash w a) ts = content a"
    using assms(2) by (simp add: modifyDividerInContent_def split: option.splits)
  show ?thesis unfolding writeSection_def g using assms(1,2) m by (simp add: Let_def)
qed

lemma spec_references_hash_lines:
  assumes "\<forall>h \<in> set hs. h \<noteq> [] \<and> (\<forall>c \<in> set h. is_hex c)"
  shows "map hash (spec_references n (map reference_line hs)) = map toUpperCase hs"
  using assms
proof (induction hs arbitrary: n)
  case Nil
  show ?case by (simp add: spec_references_Nil)
next
  case (Cons h hs)
  have "referencePattern (reference_line h) = Some h"
    unfolding reference_line_def using Cons.prems by (intro referencePattern_hash_line) simp_all
  with Cons show ?case by (simp add: spec_references_Cons)
qed

lemma referencePattern_empty: "referencePattern [] = None"
  by (simp add: referencePattern_def hash_divider_rx_def lits_def enhancedDividerPattern_def)

lemma upper_char_idem: "upper_char (upper_char c) = upper_char c"
  by (simp add: upper_char_def)

lemma toUpperCase_idem: "toUpperCase (toUpperCase s) = toUpperCase s"
  by (simp add: toUpperCase_def upper_char_idem)

lemma section_hash_upper: "toUpperCase (section_hash w s) = section_hash w s"
  by (simp add: section_hash_def generateHash_def toUpperCase_idem)

lemma basename_ext_hash: "basename_ext (h @ ext) ext = h"
  by (simp add: basename_ext_def)

lemma addReferences_result:
  assumes "rest \<noteq> []" "\<forall>s \<in> set rest. index s \<noteq> 0"
    and "readFile dir anchorName = Some c"
  shows "addReferencesToFirstFile w dir
           (Written ha anchorName 0 False
              # map (\<lambda>s. Written (section_hash w s) (section_hash w s @ fileExtension w)
                            (index s) True) rest)
         = dir(anchorName \<mapsto>
                 trim c @ [NL, NL] @ join_nl (map (\<lambda>s. reference_line (section_hash w s)) rest) @ [NL])"
proof -
  let ?res = "\<lambda>s. Written (section_hash w s) (section_hash w s @ fileExtension w) (index s) True"
  let ?first = "Written ha anchorName 0 False"
  have f: "find is_first_file (?first # map ?res rest) = Some ?first" by simp
  have o: "filter is_other_file (?first # map ?res rest) = map ?res rest"
    using assms(2) by (simp add: filter_map o_def)
  have l: "map (\<lambda>f. reference_line (basename_ext (result_filename f) (fileExtension w))) (map ?res rest)
             = map (\<lambda>s. reference_line (section_hash w s)) rest"
    by (simp add: basename_ext_hash)
  show ?thesis
    unfolding addReferencesToFirstFile_def Let_def f o l using assms(1,3) by simp
qed

lemma addReferences_none:
  "addReferencesToFirstFile w dir [Written ha name 0 False] = dir"
  by (simp add: addReferencesToFirstFile_def Let_def)

lemma extractReferences_anchor:
  assumes "\<forall>l \<in> set (split_nl B). referencePattern l = None"
    and "hs \<noteq> []" "\<forall>h \<in> set hs. h \<noteq> [] \<and> (\<forall>c \<in> set h. is_hex c)"
  shows "baseContent (extractReferences
            (B @ [NL, NL] @ join_nl (map reference_line hs) @ [NL])) = trim B"
    and "map hash (references (extractReferences
            (B @ [NL, NL] @ join_nl (map reference_line hs) @ [NL]))) = map toUpperCase hs"
proof -
  let ?R = "map reference_line hs"
  let ?X = "B @ [NL, NL] @ join_nl ?R @ [NL]"
  let ?p = "\<lambda>l. referencePattern l \<noteq> None"
  have Rnl: "\<forall>l \<in> set ?R. NL \<notin> set l"
    using assms(3) hex_chars by (auto simp: NL_def reference_line_def)
  have Rne: "?R \<noteq> []" using assms(2) by simp
  have sR: "split_nl (join_nl ?R @ [NL]) = ?R @ [[]]"
    using split_nl_append[of "join_nl ?R" "[]"] split_join_nl[OF Rne Rnl] by simp
  have "?X = B @ NL # (NL # (join_nl ?R @ [NL]))" by simp
  then have "split_nl ?X = split_nl B @ split_nl (NL # (join_nl ?R @ [NL]))"
    by (simp only: split_nl_append)
  then have lines: "split_nl ?X = (split_nl B @ [[]]) @ ?R @ [[]]"
    using sR by simp
  obtain h0 hs' where hs: "hs = h0 # hs'" using assms(2) by (cases hs) auto
  have m0: "referencePattern (reference_line h0) = Some h0"
    unfolding reference_line_def using assms(3) hs by (intro referencePattern_hash_line) simp_all
  have pre: "\<forall>x \<in> set (split_nl B @ [[]]). \<not> ?p x"
    using assms(1) referencePattern_empty by auto
  have lines2: "split_nl ?X = (split_nl B @ [[]]) @ reference_line h0 # (map reference_line hs' @ [[]])"
    using lines by (simp add: hs)
  have fi: "findIndex ?p (split_nl ?X) = Some (length (split_nl B @ [[]]))"
    unfolding lines2 using pre m0 by (intro findIndex_append) simp_all
  have ex: "extractReferences ?X
           = \<lparr> baseContent = trim (join_nl (take (length (split_nl B @ [[]])) (split_nl ?X))),
               references = spec_references 0 (split_nl ?X) \<rparr>"
    using fi by (rule extractReferences_found)
  have tk: "take (length (split_nl B @ [[]])) (split_nl ?X) = split_nl B @ [[]]"
    unfolding lines by simp
  have "join_nl (split_nl B @ [[]]) = B @ [NL]"
    using join_nl_append[of "split_nl B" "[[]]"] split_nl_nonempty[of B] join_split_nl[of B]
    by simp
  moreover have "trim (B @ [NL]) = trim B"
    by (rule trim_append_spaces) (simp add: is_space_def NL_def)
  ultimately show "baseContent (extractReferences ?X) = trim B"
    unfolding ex tk by simp
  have n1: "spec_references 0 (split_nl B @ [[]]) = []"
    using pre by (intro spec_references_none) simp
  have n2: "spec_references k [[]] = []" for k
    using referencePattern_empty by (intro spec_references_none) simp
  have a1: "spec_references 0 ((split_nl B @ [[]]) @ ?R @ [[]])
              = spec_references 0 (split_nl B @ [[]])
                @ spec_references (0 + length (split_nl B @ [[]])) (?R @ [[]])"
    by (rule spec_references_append)
  have a2: "spec_references (0 + length (split_nl B @ [[]])) (?R @ [[]])
              = spec_references (0 + length (split_nl B @ [[]])) ?R
                @ spec_references (0 + length (split_nl B @ [[]]) + length ?R) [[]]"
    by (rule spec_references_append)
  have "spec_references 0 (split_nl ?X)
          = spec_references (0 + length (split_nl B @ [[]])) ?R"
    unfolding lines a1 a2 n1 n2 by (simp only: append_Nil append_Nil2)
  then show "map hash (references (extractReferences ?X)) = map toUpperCase hs"
    unfolding ex using spec_references_hash_lines[OF assms(3)] by simp
qed

lemma combine_loop_sections:
  assumes "map hash refs = map (section_hash w) rest"
    and "\<forall>s \<in> set rest. divider_section s \<and> section_hash w s \<noteq> []
            \<and> (\<forall>c \<in> set (section_hash w s). is_hex c)
            \<and> (\<exists>ts. valid_date ts
                 \<and> readFile dir (section_hash w s @ ext)
                     = Some (join_nl (createDividerLine (section_hash w s) ts
                                        # tl (split_nl (content s)))))"
  shows "combine_loop ext dir refs = map canonical_divider rest"
  using assms
proof (induction rest arbitrary: refs)
  case Nil
  then show ?case by simp
next
  case (Cons s rest)
  from Cons.prems(1) obtain r refs' where r: "refs = r # refs'" "hash r = section_hash w s"
      "map hash refs' = map (section_hash w) rest"
    by (cases refs) auto
  from Cons.prems(2) obtain ts where ts: "valid_date ts"
      "readFile dir (section_hash w s @ ext)
         = Some (join_nl (createDividerLine (section_hash w s) ts # tl (split_nl (content s))))"
    by auto
  have c: "cleanReferencedContent
             (join_nl (createDividerLine (section_hash w s) ts # tl (split_nl (content s))))
           = canonical_divider s"
    using Cons.prems(2) ts(1) by (intro clean_written_section) simp_all
  have "combine_loop ext dir refs' = map canonical_divider rest"
    using r(3) Cons.prems(2) by (intro Cons.IH) simp_all
  with r ts(2) c show ?case by simp
qed

lemma chained_index_ge: "chained s k xs \<Longrightarrow> x \<in> set xs \<Longrightarrow> k \<le> index x"
proof (induction xs arbitrary: s k)
  case Nil
  then show ?case by simp
next
  case (Cons a xs)
  show ?case
  proof (cases "x = a")
    case True
    with Cons.prems show ?thesis by simp
  next
    case False
    with Cons.prems have "x \<in> set xs" "chained (lineEnd a + 1) (Suc k) xs" by simp_all
    then have "Suc k \<le> index x" by (intro Cons.IH)
    then show ?thesis by simp
  qed
qed

text \<open>
  Claim C2, amended. Let the sections of \<open>T\<close> be an anchor \<open>a\<close> (no divider) with non-empty
  content, followed by the \<open>K\<close> sections \<open>rest\<close>, and let the anchor file, named by
  \<open>writeSection\<close> after the source or after the anchor's hash, have a non-empty name.
  Assume:
  \<^item> when \<open>K > 0\<close>, references are enabled and no line of the trimmed anchor content matches
    the reference-divider pattern; when \<open>K = 0\<close>, no line of the anchor content matches it;
  \<^item> when existing files are not overwritten, the \<open>K\<close> section hashes are pairwise distinct;
    when they are overwritten, sections with the same hash have the same lines after
    their divider line;
  \<^item> every section hash is a non-empty hexadecimal string, and no section's file name is
    the anchor's file name;
  \<^item> the timestamps of the \<open>K\<close> sections have a four-digit year.

  Then writing the sections into an empty directory and reconstructing from the anchor
  file, with the writer's extension, yields the trimmed anchor content followed by the
  \<open>K\<close> sections in their order, each with its divider line replaced by the bare divider
  \<open>---:\<close> (hash and timestamp both dropped), all joined by one blank line; and the anchor
  file lists exactly the \<open>K\<close> section hashes, in order.
\<close>

theorem split_write_reconstruct:
  assumes split: "splitContent T = a # rest" and anchor: "\<not> hasDivider a"
    and ne: "content a \<noteq> []"
    and name: "section_filename w a (section_hash w a) \<noteq> []"
    and addr: "rest \<noteq> [] \<longrightarrow> addReferences w"
    and nomatch: "rest \<noteq> [] \<longrightarrow>
                    (\<forall>l \<in> set (split_nl (trim (content a))). referencePattern l = None)"
    and nomatch0: "rest = [] \<longrightarrow> (\<forall>l \<in> set (split_nl (content a)). referencePattern l = None)"
    and dist: "\<not> overwriteExisting w \<longrightarrow> distinct (map (section_hash w) rest)"
    and same: "overwriteExisting w \<longrightarrow>
                 (\<forall>s \<in> set rest. \<forall>t \<in> set rest. section_hash w s = section_hash w t
                    \<longrightarrow> tl (split_nl (content s)) = tl (split_nl (content t)))"
    and hashes: "\<forall>s \<in> set rest. section_hash w s \<noteq> []
                   \<and> (\<forall>c \<in> set (section_hash w s). is_hex c)
                   \<and> section_hash w s @ fileExtension w \<noteq> section_filename w a (section_hash w a)"
    and dates: "\<forall>k. 1 \<le> k \<and> k \<le> length rest \<longrightarrow> valid_date (clock k)"
  shows "reconstructDocument (fileExtension w)
           (fst (writeSections w clock Map.empty (splitContent T)))
           (section_filename w a (section_hash w a))
         = Inr (join_blank (trim (content a) # map canonical_divider rest))
    \<and> (\<exists>anchorFile. readFile (fst (writeSections w clock Map.empty (splitContent T)))
                        (section_filename w a (section_hash w a)) = Some anchorFile
          \<and> baseContent (extractReferences anchorFile) = trim (content a)
          \<and> map hash (references (extractReferences anchorFile)) = map (section_hash w) rest)"
proof -
  let ?ext = "fileExtension w"
  let ?anchor = "section_filename w a (section_hash w a)"
  let ?name = "\<lambda>s. section_hash w s @ ?ext"
  let ?res = "\<lambda>s. Written (section_hash w s) (?name s) (index s) True"
  let ?first = "Written (section_hash w a) ?anchor 0 False"
  let ?dir1 = "[?anchor \<mapsto> content a]"
  have Tne: "T \<noteq> []" using split by (auto simp: splitContent_def)
  from splitContent_chained[OF Tne] have ch: "chained 1 0 (a # rest)" unfolding split by simp
  then have ia: "index a = 0" and chr: "chained (lineEnd a + 1) (Suc 0) rest" by simp_all
  have ir: "\<forall>s \<in> set rest. index s \<noteq> 0"
    using chained_index_ge[OF chr] by fastforce
  from splitContent_dividers[of T] have dv: "\<forall>s \<in> set rest. divider_section s"
    unfolding split by (auto simp: list_all_iff)
  have hx: "\<forall>s \<in> set rest. \<forall>c \<in> set (section_hash w s). is_hex c" using hashes by blast
  have fresh: "\<forall>s \<in> set rest. ?dir1 (?name s) = None" using hashes by simp
  have ow: "overwriteExisting w
         \<or> (distinct (map (section_hash w) rest) \<and> (\<forall>s \<in> set rest. ?dir1 (?name s) = None))"
  proof (cases "overwriteExisting w")
    case True
    then show ?thesis by (rule disjI1)
  next
    case False
    with dist have "distinct (map (section_hash w) rest)" by simp
    then show ?thesis using fresh by (intro disjI2 conjI)
  qed
  have sm: "\<forall>s \<in> set rest. \<forall>t \<in> set rest. section_hash w s = section_hash w t
            \<longrightarrow> tl (split_nl (content s)) = tl (split_nl (content t))"
  proof (cases "overwriteExisting w")
    case True
    with same show ?thesis by (rule mp)
  next
    case False
    with dist have inj: "inj_on (section_hash w) (set rest)" by (simp add: distinct_map)
    show ?thesis
    proof (intro ballI impI)
      fix s t
      assume st: "s \<in> set rest" "t \<in> set rest" and eq: "section_hash w s = section_hash w t"
      from inj eq st have "s = t" by (rule inj_onD)
      then show "tl (split_nl (content s)) = tl (split_nl (content t))" by simp
    qed
  qed
  have dt: "\<forall>j. Suc 0 \<le> j \<and> j < Suc 0 + length rest \<longrightarrow> valid_date (clock j)"
    using dates by simp
  have wa: "writeSection w Map.empty a (clock 0) = (Inr ?first, ?dir1)"
    using ia anchor ne by (rule writeSection_anchor)
  from write_loop_dividers[OF dv ow sm hx dt, of "[?first]"]
  obtain dir' where wl: "write_loop w clock (Suc 0) rest ?dir1 [?first] = (dir', [?first] @ map ?res rest)"
    and keep: "\<forall>f. f \<notin> ?name ` set rest \<longrightarrow> dir' f = ?dir1 f"
    and files: "\<forall>s \<in> set rest. \<exists>ts. valid_date ts
                  \<and> dir' (?name s) = Some (join_nl (createDividerLine (section_hash w s) ts
                                                       # tl (split_nl (content s))))"
    by blast
  have loop: "write_loop w clock 0 (a # rest) Map.empty [] = (dir', ?first # map ?res rest)"
    using wa wl by simp
  have "?anchor \<notin> ?name ` set rest" using hashes by auto
  then have anchor_file: "readFile dir' ?anchor = Some (content a)"
    using keep by (simp add: readFile_def)
  show ?thesis
  proof (cases "rest = []")
    case True
    have ws: "writeSections w clock Map.empty (splitContent T) = (dir', [?first])"
      unfolding split writeSections_def loop using True by (simp add: addReferences_none)
    have nm: "\<forall>l \<in> set (split_nl (content a)). referencePattern l = None"
      using nomatch0 True by simp
    have ex: "extractReferences (content a) = \<lparr> baseContent = trim (content a), references = [] \<rparr>"
      using nm by (rule extractReferences_none)
    have r: "reconstructDocument ?ext dir' ?anchor = Inr (trim (content a))"
      unfolding reconstructDocument_def using name anchor_file ex by simp
    have "\<exists>anchorFile. readFile dir' ?anchor = Some anchorFile
          \<and> baseContent (extractReferences anchorFile) = trim (content a)
          \<and> map hash (references (extractReferences anchorFile)) = map (section_hash w) rest"
      using anchor_file ex True by simp
    with r True show ?thesis unfolding ws by simp
  next
    case False
    let ?hs = "map (section_hash w) rest"
    let ?upd = "trim (content a) @ [NL, NL] @ join_nl (map reference_line ?hs) @ [NL]"
    let ?dir2 = "dir'(?anchor \<mapsto> ?upd)"
    from addr False have addr': "addReferences w" by simp
    from nomatch False
    have nomatch': "\<forall>l \<in> set (split_nl (trim (content a))). referencePattern l = None" by simp
    have ar: "addReferencesToFirstFile w dir' (?first # map ?res rest) = ?dir2"
      using addReferences_result[OF False ir anchor_file, of w "section_hash w a"]
      by (simp add: o_def)
    have ws: "writeSections w clock Map.empty (splitContent T) = (?dir2, ?first # map ?res rest)"
      unfolding split writeSections_def loop using addr' ar by simp
    have hs_ne: "?hs \<noteq> []" using False by simp
    have hs_ok: "\<forall>h \<in> set ?hs. h \<noteq> [] \<and> (\<forall>c \<in> set h. is_hex c)" using hashes by auto
    have up: "map toUpperCase ?hs = ?hs" by (simp add: section_hash_upper)
    have bc: "baseContent (extractReferences ?upd) = trim (content a)"
      using extractReferences_anchor(1)[OF nomatch' hs_ne hs_ok] by (simp add: trim_idem)
    have rf: "map hash (references (extractReferences ?upd)) = ?hs"
      using extractReferences_anchor(2)[OF nomatch' hs_ne hs_ok] up by simp
    have rne: "references (extractReferences ?upd) \<noteq> []" using rf hs_ne by auto
    have af: "readFile ?dir2 ?anchor = Some ?upd" by (simp add: readFile_def)
    have other: "\<forall>s \<in> set rest. ?name s \<noteq> ?anchor" using hashes by blast
    have look: "\<forall>s \<in> set rest. divider_section s \<and> section_hash w s \<noteq> []
            \<and> (\<forall>c \<in> set (section_hash w s). is_hex c)
            \<and> (\<exists>ts. valid_date ts
                 \<and> readFile ?dir2 (section_hash w s @ ?ext)
                     = Some (join_nl (createDividerLine (section_hash w s) ts
                                        # tl (split_nl (content s)))))"
      using dv hashes files other by (simp add: readFile_def)
    have cl: "combine_loop ?ext ?dir2 (references (extractReferences ?upd)) = map canonical_divider rest"
      using rf look by (rule combine_loop_sections)
    have r: "reconstructDocument ?ext ?dir2 ?anchor
               = Inr (join_blank (trim (content a) # map canonical_divider rest))"
      unfolding reconstructDocument_def using name af rne bc cl
      by (simp add: Let_def combineReferencedFiles_def)
    have "\<exists>anchorFile. readFile ?dir2 ?anchor = Some anchorFile
          \<and> baseContent (extractReferences anchorFile) = trim (content a)
          \<and> map hash (references (extractReferences anchorFile)) = map (section_hash w) rest"
      using af bc rf by blast
    with r show ?thesis unfolding ws by simp
  qed
qed

theorem split_write_reconstruct_witness:
  "reconstructDocument ''.md''
     (fst (writeSections example_writer example_clock Map.empty
            (splitContent ''A\<newline>\<newline>---:\<newline>B\<newline>---:  \<newline>C\<newline>''))) ''doc.md''
   = Inr ''A\<newline>\<newline>---:\<newline>B\<newline>\<newline>---:\<newline>C\<newline>''
   \<and> reconstructDocument ''.md''
     (fst (writeSections (example_writer\<lparr> overwriteExisting := True, sourceBaseName := None \<rparr>)
            example_clock Map.empty (splitContent ''A\<newline>---:\<newline>B\<newline>---:\<newline>B''))) ''41000000.md''
   = Inr ''A\<newline>\<newline>---:\<newline>B\<newline>\<newline>---:\<newline>B''"
proof -
  define T where "T = ''A\<newline>\<newline>---:\<newline>B\<newline>---:  \<newline>C\<newline>''"
  define a where "a = \<lparr> index = 0, content = ''A\<newline>'', hasDivider = False,
      originalDividerLine = None, lineStart = 1, lineEnd = 2 \<rparr>"
  define rest where "rest = [\<lparr> index = 1, content = ''---:\<newline>B'', hasDivider = True,
      originalDividerLine = Some ''---:'', lineStart = 3, lineEnd = 4 \<rparr>,
    \<lparr> index = 2, content = ''---:  \<newline>C\<newline>'', hasDivider = True,
      originalDividerLine = Some ''---:  '', lineStart = 5, lineEnd = 7 \<rparr>]"
  define w where "w = example_writer"
  have h1: "splitContent T = a # rest" unfolding T_def a_def rest_def by code_simp
  have h2: "\<not> hasDivider a" by (simp add: a_def)
  have h3: "content a \<noteq> []" by (simp add: a_def)
  have f: "section_filename w a (section_hash w a) = ''doc.md''"
    unfolding w_def a_def by code_simp
  have h4: "section_filename w a (section_hash w a) \<noteq> []" unfolding f by simp
  have h5: "rest \<noteq> [] \<longrightarrow> addReferences w" by (simp add: w_def example_writer_def)
  have h6: "rest \<noteq> [] \<longrightarrow> (\<forall>l \<in> set (split_nl (trim (content a))). referencePattern l = None)"
    unfolding a_def by code_simp
  have h7: "rest = [] \<longrightarrow> (\<forall>l \<in> set (split_nl (content a)). referencePattern l = None)"
    by (simp add: rest_def)
  have h8: "\<not> overwriteExisting w \<longrightarrow> distinct (map (section_hash w) rest)"
    unfolding w_def rest_def by code_simp
  have h9: "overwriteExisting w \<longrightarrow>
                 (\<forall>s \<in> set rest. \<forall>t \<in> set rest. section_hash w s = section_hash w t
                    \<longrightarrow> tl (split_nl (content s)) = tl (split_nl (content t)))"
    by (simp add: w_def example_writer_def)
  have h10: "\<forall>s \<in> set rest. section_hash w s \<noteq> []
                   \<and> (\<forall>c \<in> set (section_hash w s). is_hex c)
                   \<and> section_hash w s @ fileExtension w \<noteq> section_filename w a (section_hash w a)"
    unfolding w_def a_def rest_def by code_simp
  have h11: "\<forall>k. 1 \<le> k \<and> k \<le> length rest \<longrightarrow> valid_date (example_clock k)"
    by (simp add: valid_date_def example_clock_def)
  have e: "fileExtension w = ''.md''" by (simp add: w_def example_writer_def)
  have v: "join_blank (trim (content a) # map canonical_divider rest)
             = ''A\<newline>\<newline>---:\<newline>B\<newline>\<newline>---:\<newline>C\<newline>''"
    unfolding a_def rest_def by code_simp
  from split_write_reconstruct [OF h1 h2 h3 h4 h5 h6 h7 h8 h9 h10 h11]
  have "reconstructDocument (fileExtension w)
           (fst (writeSections w example_clock Map.empty (splitContent T)))
           (section_filename w a (section_hash w a))
         = Inr (join_blank (trim (content a) # map canonical_divider rest))"
    by (rule conjunct1)
  then have "reconstructDocument ''.md''
           (fst (writeSections w example_clock Map.empty (splitContent T))) ''doc.md''
         = Inr ''A\<newline>\<newline>---:\<newline>B\<newline>\<newline>---:\<newline>C\<newline>''"
    unfolding e v f .
  then have first: "reconstructDocument ''.md''
     (fst (writeSections example_writer example_clock Map.empty
            (splitContent ''A\<newline>\<newline>---:\<newline>B\<newline>---:  \<newline>C\<newline>''))) ''doc.md''
   = Inr ''A\<newline>\<newline>---:\<newline>B\<newline>\<newline>---:\<newline>C\<newline>''"
    unfolding w_def T_def .
  define T' where "T' = ''A\<newline>---:\<newline>B\<newline>---:\<newline>B''"
  define a' where "a' = \<lparr> index = 0, content = ''A'', hasDivider = False,
      originalDividerLine = None, lineStart = 1, lineEnd = 1 \<rparr>"
  define rest' where "rest' = [\<lparr> index = 1, content = ''---:\<newline>B'', hasDivider = True,
      originalDividerLine = Some ''---:'', lineStart = 2, lineEnd = 3 \<rparr>,
    \<lparr> index = 2, content = ''---:\<newline>B'', hasDivider = True,
      originalDividerLine = Some ''---:'', lineStart = 4, lineEnd = 5 \<rparr>]"
  define w' where "w' = example_writer\<lparr> overwriteExisting := True, sourceBaseName := None \<rparr>"
  have g1: "splitContent T' = a' # rest'" unfolding T'_def a'_def rest'_def by code_simp
  have g2: "\<not> hasDivider a'" by (simp add: a'_def)
  have g3: "content a' \<noteq> []" by (simp add: a'_def)
  have f': "section_filename w' a' (section_hash w' a') = ''41000000.md''"
    unfolding w'_def a'_def by code_simp
  have g4: "section_filename w' a' (section_hash w' a') \<noteq> []" unfolding f' by simp
  have g5: "rest' \<noteq> [] \<longrightarrow> addReferences w'" by (simp add: w'_def example_writer_def)
  have g6: "rest' \<noteq> [] \<longrightarrow> (\<forall>l \<in> set (split_nl (trim (content a'))). referencePattern l = None)"
    unfolding a'_def by code_simp
  have g7: "rest' = [] \<longrightarrow> (\<forall>l \<in> set (split_nl (content a')). referencePattern l = None)"
    by (simp add: rest'_def)
  have g8: "\<not> overwriteExisting w' \<longrightarrow> distinct (map (section_hash w') rest')"
    by (simp add: w'_def)
  have g9: "overwriteExisting w' \<longrightarrow>
                 (\<forall>s \<in> set rest'. \<forall>t \<in> set rest'. section_hash w' s = section_hash w' t
                    \<longrightarrow> tl (split_nl (content s)) = tl (split_nl (content t)))"
    unfolding w'_def rest'_def by code_simp
  have g10: "\<forall>s \<in> set rest'. section_hash w' s \<noteq> []
                   \<and> (\<forall>c \<in> set (section_hash w' s). is_hex c)
                   \<and> section_hash w' s @ fileExtension w' \<noteq> section_filename w' a' (section_hash w' a')"
    unfolding w'_def a'_def rest'_def by code_simp
  have g11: "\<forall>k. 1 \<le> k \<and> k \<le> length rest' \<longrightarrow> valid_date (example_clock k)"
    by (simp add: valid_date_def example_clock_def)
  have e': "fileExtension w' = ''.md''" by (simp add: w'_def example_writer_def)
  have v': "join_blank (trim (content a') # map canonical_divider rest')
             = ''A\<newline>\<newline>---:\<newline>B\<newline>\<newline>---:\<newline>B''"
    unfolding a'_def rest'_def by code_simp
  from split_write_reconstruct [OF g1 g2 g3 g4 g5 g6 g7 g8 g9 g10 g11]
  have "reconstructDocument (fileExtension w')
           (fst (writeSections w' example_clock Map.empty (splitContent T')))
           (section_filename w' a' (section_hash w' a'))
         = Inr (join_blank (trim (content a') # map canonical_divider rest'))"
    by (rule conjunct1)
  then have "reconstructDocument ''.md''
           (fst (writeSections w' example_clock Map.empty (splitContent T'))) ''41000000.md''
         = Inr ''A\<newline>\<newline>---:\<newline>B\<newline>\<newline>---:\<newline>B''"
    unfolding e' v' f' .
  then have second: "reconstructDocument ''.md''
     (fst (writeSections (example_writer\<lparr> overwriteExisting := True, sourceBaseName := None \<rparr>)
            example_clock Map.empty (splitContent ''A\<newline>---:\<newline>B\<newline>---:\<newline>B''))) ''41000000.md''
   = Inr ''A\<newline>\<newline>---:\<newline>B\<newline>\<newline>---:\<newline>B''"
    unfolding w'_def T'_def .
  from first second show ?thesis by (rule conjI)
qed

text \<open>
  Claim C2 as stated fails in two ways, shown with the stand-in digest on two documents.
  In \<open>"A\n---:\nB\n---:\nB"\<close> two of the \<open>K = 2\<close> sections have the same content, hence the
  same hash whatever the digest: the second is skipped because its file exists, the anchor
  gets one reference, and the reconstruction holds one section body where the document
  has two. In \<open>"A\n---:\nB"\<close> nothing is skipped, the written section file begins with the
  divider \<open>---: 42000000 09:05:01 2025/08/16\<close>, and the reconstruction restores the bare
  divider \<open>---:\<close>, where the canonical form of the claim keeps the hash:
  \<open>---: 42000000\<close>.
\<close>

theorem split_write_reconstruct_counterexample:
  "\<not> hasDivider (hd (splitContent ''A\<newline>---:\<newline>B\<newline>---:\<newline>B''))
   \<and> length (tl (splitContent ''A\<newline>---:\<newline>B\<newline>---:\<newline>B'')) = 2
   \<and> snd (writeSections example_writer example_clock Map.empty
            (splitContent ''A\<newline>---:\<newline>B\<newline>---:\<newline>B''))
       = [Written ''41000000'' ''doc.md'' 0 False, Written ''42000000'' ''42000000.md'' 1 True,
          Skipped ''42000000'' ''42000000.md'']
   \<and> reconstructDocument ''.md''
        (fst (writeSections example_writer example_clock Map.empty
               (splitContent ''A\<newline>---:\<newline>B\<newline>---:\<newline>B''))) ''doc.md''
       = Inr ''A\<newline>\<newline>---:\<newline>B''
   \<and> join_blank (trim (content (hd (splitContent ''A\<newline>---:\<newline>B\<newline>---:\<newline>B'')))
         # map (spec_canonical_divider example_writer)
             (tl (splitContent ''A\<newline>---:\<newline>B\<newline>---:\<newline>B'')))
       = ''A\<newline>\<newline>---: 42000000\<newline>B\<newline>\<newline>---: 42000000\<newline>B''
   \<and> \<not> hasDivider (hd (splitContent ''A\<newline>---:\<newline>B''))
   \<and> snd (writeSections example_writer example_clock Map.empty (splitContent ''A\<newline>---:\<newline>B''))
       = [Written ''41000000'' ''doc.md'' 0 False, Written ''42000000'' ''42000000.md'' 1 True]
   \<and> readFile (fst (writeSections example_writer example_clock Map.empty
                      (splitContent ''A\<newline>---:\<newline>B''))) ''42000000.md''
       = Some ''---: 42000000 09:05:01 2025/08/16\<newline>B''
   \<and> reconstructDocument ''.md''
        (fst (writeSections example_writer example_clock Map.empty
               (splitContent ''A\<newline>---:\<newline>B''))) ''doc.md''
       = Inr ''A\<newline>\<newline>---:\<newline>B''
   \<and> join_blank (trim (content (hd (splitContent ''A\<newline>---:\<newline>B'')))
         # map (spec_canonical_divider example_writer) (tl (splitContent ''A\<newline>---:\<newline>B'')))
       = ''A\<newline>\<newline>---: 42000000\<newline>B''"
  by code_simp

end
